theory Spec2Isabelle
  imports Complex_Main "HOL-Library.Monad_Syntax" "HOL-Library.Multiset"
begin

section \<open>JavaScript arithmetic used by script.js\<close>

text \<open>
  Pitch classes and the pitches handed to the audio functions are JavaScript numbers that
  hold integers (select values 0..11, keys of the keyboard); they are modelled as
  \<open>int\<close>.  The \<open>%\<close> operator of JavaScript truncates towards zero: the result has the
  sign of the dividend, and it is exact.  The divisor in script.js is always the
  literal 12.
\<close>

definition js_rem :: "int \<Rightarrow> int \<Rightarrow> int" where
  "js_rem a b = sgn a * (\<bar>a\<bar> mod \<bar>b\<bar>)"

text \<open>
  \<open>Math.floor\<close> of a quotient or of a number argument is the floor of a real;
  \<open>Math.round\<close> rounds to the nearest integer, a tie going towards plus infinity.
\<close>

definition Math_floor :: "real \<Rightarrow> int" where
  "Math_floor x = \<lfloor>x\<rfloor>"

definition Math_round :: "real \<Rightarrow> int" where
  "Math_round x = \<lfloor>x + 1 / 2\<rfloor>"

text \<open>A JavaScript number: a finite value, or one of the three non-finite ones.\<close>

datatype jsnum = Fin real | NaN | PosInf | NegInf

text \<open>
  A JavaScript number is a binary64 double, so a sum, a product or a quotient is the exact
  result rounded to 53 significant bits, a tie going to the even significand.
  \<open>pow2 i\<close> is the power of two with exponent \<open>i\<close>, and \<open>expo x\<close> for a positive \<open>x\<close> the
  exponent \<open>e\<close> with \<open>pow2 e \<le> x < pow2 (e + 1)\<close>.  Below the exponent -1022 the spacing
  stays that of the subnormal numbers; a rounded value of magnitude \<open>2 ^ 1024\<close> or more is
  an infinity.  The sign of a zero is not modelled: nothing in the script depends on it.
\<close>

definition pow2 :: "int \<Rightarrow> real" where
  "pow2 i = (if 0 \<le> i then 2 ^ nat i else 1 / 2 ^ nat (- i))"

function expo :: "real \<Rightarrow> int" where
  "expo x = (if 2 \<le> x then expo (x / 2) + 1
             else if 0 < x \<and> x < 1 then expo (2 * x) - 1
             else 0)"
  by pat_completeness auto
termination
proof (relation "measure (\<lambda>x. if 2 \<le> x then nat \<lfloor>x\<rfloor>
                               else if 0 < x \<and> x < 1 then nat \<lceil>1 / x\<rceil> else 0)")
  show "wf (measure (\<lambda>x. if 2 \<le> x then nat \<lfloor>x\<rfloor>
                          else if 0 < x \<and> x < 1 then nat \<lceil>1 / x\<rceil> else 0))"
    by simp
next
  fix x :: real
  assume x: "2 \<le> x"
  have "\<lfloor>x / 2\<rfloor> < \<lfloor>x\<rfloor>"
  proof -
    have "x / 2 + 1 \<le> x" using x by simp
    then have "\<lfloor>x / 2 + 1\<rfloor> \<le> \<lfloor>x\<rfloor>" by (rule floor_mono)
    then show ?thesis by simp
  qed
  moreover have "0 < \<lfloor>x\<rfloor>" using x by linarith
  ultimately show "(x / 2, x) \<in> measure (\<lambda>x. if 2 \<le> x then nat \<lfloor>x\<rfloor>
                               else if 0 < x \<and> x < 1 then nat \<lceil>1 / x\<rceil> else 0)"
    using x by auto
next
  fix x :: real
  assume "\<not> 2 \<le> x" and x: "0 < x \<and> x < 1"
  have c: "1 < 1 / x" using x by simp
  then have c2: "2 \<le> \<lceil>1 / x\<rceil>" by linarith
  have "\<lceil>1 / (2 * x)\<rceil> < \<lceil>1 / x\<rceil>"
  proof -
    have "1 / (2 * x) = (1 / x) / 2" by simp
    also have "\<dots> \<le> of_int \<lceil>1 / x\<rceil> / 2" by (simp add: divide_right_mono)
    also have "\<dots> \<le> of_int (\<lceil>1 / x\<rceil> - 1)" using c2 by simp
    finally have "1 / (2 * x) \<le> of_int (\<lceil>1 / x\<rceil> - 1)" .
    then have "\<lceil>1 / (2 * x)\<rceil> \<le> \<lceil>1 / x\<rceil> - 1" by (rule ceiling_le)
    then show ?thesis by simp
  qed
  then show "(2 * x, x) \<in> measure (\<lambda>x. if 2 \<le> x then nat \<lfloor>x\<rfloor>
                               else if 0 < x \<and> x < 1 then nat \<lceil>1 / x\<rceil> else 0)"
    using x c2 by auto
qed

declare expo.simps [simp del]

definition round_even :: "real \<Rightarrow> int" where
  "round_even m =
     (let f = \<lfloor>m\<rfloor>; d = m - real_of_int f
      in if d < 1 / 2 then f else if 1 / 2 < d then f + 1 else if even f then f else f + 1)"

definition round53 :: "real \<Rightarrow> real" where
  "round53 x =
     (if x = 0 then 0
      else let e = max (- 1022) (expo \<bar>x\<bar>);
               u = pow2 (e - 52)
           in u * real_of_int (round_even (x / u)))"

definition to_double :: "real \<Rightarrow> jsnum" where
  "to_double x =
     (let y = round53 x
      in if 2 ^ 1024 \<le> y then PosInf else if y \<le> - (2 ^ 1024) then NegInf else Fin y)"

text \<open>The operators \<open>+\<close>, \<open>*\<close> and \<open>%\<close>, \<open>Math.floor\<close> and \<open>Math.max\<close> on numbers.\<close>

fun js_add :: "jsnum \<Rightarrow> jsnum \<Rightarrow> jsnum" where
  "js_add (Fin x) (Fin y) = to_double (x + y)"
| "js_add NaN b = NaN"
| "js_add a NaN = NaN"
| "js_add PosInf NegInf = NaN"
| "js_add NegInf PosInf = NaN"
| "js_add PosInf b = PosInf"
| "js_add a PosInf = PosInf"
| "js_add NegInf b = NegInf"
| "js_add a NegInf = NegInf"

fun js_mul :: "jsnum \<Rightarrow> jsnum \<Rightarrow> jsnum" where
  "js_mul (Fin x) (Fin y) = to_double (x * y)"
| "js_mul NaN b = NaN"
| "js_mul a NaN = NaN"
| "js_mul PosInf (Fin y) = (if y = 0 then NaN else if 0 < y then PosInf else NegInf)"
| "js_mul NegInf (Fin y) = (if y = 0 then NaN else if 0 < y then NegInf else PosInf)"
| "js_mul (Fin x) PosInf = (if x = 0 then NaN else if 0 < x then PosInf else NegInf)"
| "js_mul (Fin x) NegInf = (if x = 0 then NaN else if 0 < x then NegInf else PosInf)"
| "js_mul PosInf PosInf = PosInf"
| "js_mul NegInf NegInf = PosInf"
| "js_mul PosInf NegInf = NegInf"
| "js_mul NegInf PosInf = NegInf"

definition js_trunc :: "real \<Rightarrow> int" where
  "js_trunc y = (if 0 \<le> y then \<lfloor>y\<rfloor> else \<lceil>y\<rceil>)"

fun js_mod :: "jsnum \<Rightarrow> jsnum \<Rightarrow> jsnum" where
  "js_mod (Fin x) (Fin y) = (if y = 0 then NaN else Fin (x - y * real_of_int (js_trunc (x / y))))"
| "js_mod (Fin x) PosInf = Fin x"
| "js_mod (Fin x) NegInf = Fin x"
| "js_mod a b = NaN"

fun js_floor :: "jsnum \<Rightarrow> jsnum" where
  "js_floor (Fin x) = Fin (real_of_int \<lfloor>x\<rfloor>)"
| "js_floor a = a"

fun js_max :: "jsnum \<Rightarrow> jsnum \<Rightarrow> jsnum" where
  "js_max (Fin x) (Fin y) = Fin (max x y)"
| "js_max NaN b = NaN"
| "js_max a NaN = NaN"
| "js_max PosInf b = PosInf"
| "js_max a PosInf = PosInf"
| "js_max NegInf b = b"
| "js_max a NegInf = a"

text \<open>The comparisons \<open>!==\<close> and \<open><\<close> on numbers: \<open>NaN\<close> differs from every number.\<close>

definition js_strict_neq :: "jsnum \<Rightarrow> jsnum \<Rightarrow> bool" where
  "js_strict_neq a b = (a = NaN \<or> b = NaN \<or> a \<noteq> b)"

fun js_lt :: "jsnum \<Rightarrow> jsnum \<Rightarrow> bool" where
  "js_lt (Fin x) (Fin y) = (x < y)"
| "js_lt NaN b = False"
| "js_lt a NaN = False"
| "js_lt a NegInf = False"
| "js_lt PosInf b = False"
| "js_lt NegInf b = True"
| "js_lt a PosInf = True"

text \<open>
  Reading index \<open>i\<close> of an array gives \<open>undefined\<close> (here \<open>None\<close>) past its end.
  For an array of nullable entries, \<open>undefined\<close> and \<open>null\<close> are the same to the
  \<open>== null\<close> tests of the script, so both are \<open>None\<close> in \<open>js_at_nullable\<close>.
\<close>

definition js_at :: "'a list \<Rightarrow> nat \<Rightarrow> 'a option" where
  "js_at xs i = (if i < length xs then Some (xs ! i) else None)"

definition js_at_nullable :: "'a option list \<Rightarrow> nat \<Rightarrow> 'a option" where
  "js_at_nullable xs i = (case js_at xs i of None \<Rightarrow> None | Some v \<Rightarrow> v)"

section \<open>Pitch helpers (script.js, lines 210-218)\<close>

text \<open>
  \<open>pcFromPitch\<close> and \<open>octFromPitch\<close> on an integer pitch.  The remainders are exact and
  the sum \<open>(p % 12) + 12\<close> is an integer below 24.  The quotient \<open>p / 12\<close> is rounded to a
  double before \<open>Math.floor\<close>; it cannot overflow.
\<close>

definition pcFromPitch :: "int \<Rightarrow> int" where
  "pcFromPitch p = js_rem (js_rem p 12 + 12) 12"

definition octFromPitch :: "int \<Rightarrow> int" where
  "octFromPitch p = Math_floor (round53 (real_of_int p / 12))"

text \<open>
  \<open>pcFromPitch\<close> on any number, as the scan below applies it to its loop variable, which
  can be \<open>NaN\<close> or an infinity.
\<close>

definition pcFromPitch_num :: "jsnum \<Rightarrow> jsnum" where
  "pcFromPitch_num p = js_mod (js_add (js_mod p (Fin 12)) (Fin 12)) (Fin 12)"

definition pitchFromPcOct :: "jsnum \<Rightarrow> jsnum \<Rightarrow> jsnum" where
  "pitchFromPcOct pc oct = js_add (js_mul oct (Fin 12)) pc"

section \<open>Theory helpers (script.js, lines 268-272)\<close>

text \<open>A quality is the string the script compares with \<open>"major"\<close>; anything else is minor.\<close>

definition triadPcs :: "int \<Rightarrow> string \<Rightarrow> int list" where
  "triadPcs rootPc quality =
     (let third = js_rem (rootPc + (if quality = ''major'' then 4 else 3)) 12;
          fifth = js_rem (rootPc + 7) 12
      in [rootPc, third, fifth])"

section \<open>Root-position pitch helpers (script.js, lines 445-471)\<close>

text \<open>
  The \<open>while\<close> loop of \<open>nextPitchAtOrAbove\<close>, with \<open>p += 1\<close> rounded as every sum is:
  \<open>None\<close> stands for a loop that never leaves.
\<close>

partial_function (option) scan_up :: "int \<Rightarrow> jsnum \<Rightarrow> jsnum option" where
  "scan_up want p =
     (if js_strict_neq (pcFromPitch_num p) (Fin (real_of_int want))
      then scan_up want (js_add p (Fin 1))
      else Some p)"

declare scan_up.simps [code]

text \<open>The pitch class \<open>pc\<close> is an integer; \<open>minPitch\<close> is any number.\<close>

definition nextPitchAtOrAbove :: "int \<Rightarrow> jsnum \<Rightarrow> jsnum option" where
  "nextPitchAtOrAbove pc minPitch =
     (let want = js_rem (js_rem pc 12 + 12) 12;
          p = js_max (Fin 0) (js_floor minPitch)
      in scan_up want p)"

text \<open>
  \<open>userPcs\<close> is the array of the three answer slots, \<open>None\<close> for \<open>null\<close>, and \<open>rootOct\<close>
  any number.  The result is \<open>None\<close> only if one of the scans does not return.
\<close>

definition answeredRootPositionPitches :: "int option list \<Rightarrow> jsnum \<Rightarrow> jsnum list option" where
  "answeredRootPositionPitches userPcs rootOct =
     (let p0 = js_at_nullable userPcs 0;
          p1 = js_at_nullable userPcs 1;
          p2 = js_at_nullable userPcs 2
      in if p0 = None \<and> p1 = None \<and> p2 = None then Some []
         else
           let rootPitch = (case p0 of
                              None \<Rightarrow> None
                            | Some v \<Rightarrow> Some (pitchFromPcOct (Fin (real_of_int v)) rootOct));
               start = (case rootPitch of None \<Rightarrow> pitchFromPcOct (Fin 0) rootOct | Some r \<Rightarrow> r)
           in do {
             first \<leftarrow> (case rootPitch of
                          None \<Rightarrow> nextPitchAtOrAbove (case p0 of None \<Rightarrow> 0 | Some v \<Rightarrow> v) start
                        | Some r \<Rightarrow> Some r);
             third \<leftarrow> (case p1 of
                          None \<Rightarrow> Some None
                        | Some v \<Rightarrow> map_option Some (nextPitchAtOrAbove v (js_add first (Fin 1))));
             fifth \<leftarrow> (case p2 of
                          None \<Rightarrow> Some None
                        | Some v \<Rightarrow> map_option Some
                            (nextPitchAtOrAbove v
                               (js_add (case third of None \<Rightarrow> first | Some t \<Rightarrow> t) (Fin 1))));
             Some (map the (filter (\<lambda>v. v \<noteq> None) [Some first, third, fifth]))
           })"

section \<open>Game state and question generation (script.js, lines 474-514)\<close>

text \<open>
  A question object (its field \<open>id\<close> is \<open>id_q\<close> here), and the object \<open>state\<close> of the
  script with its initial value.
\<close>

record question =
  id_q :: string
  rootPc :: int
  quality :: string
  correctPcs :: "int list"
  userPcs :: "int option list"
  marks :: int

record game_state =
  started :: bool
  submitted :: bool
  questions :: "question list"
  questionCount :: int

definition initial_state :: game_state where
  "initial_state = \<lparr>started = False, submitted = False, questions = [], questionCount = 18\<rparr>"

text \<open>
  \<open>clampQuestions\<close>: \<open>Number(n)\<close> leaves a number as it is; a value that is not finite
  gives 18.
\<close>

definition clampQuestions :: "jsnum \<Rightarrow> int" where
  "clampQuestions n =
     (case n of
        Fin v \<Rightarrow> min 30 (max 1 (Math_round v))
      | _ \<Rightarrow> 18)"

text \<open>The decimal text of a number in a template string, as in \<open>`q${idx + 1}`\<close>.\<close>

definition digit_char :: "nat \<Rightarrow> char" where
  "digit_char d = ''0123456789'' ! d"

fun show_nat :: "nat \<Rightarrow> string" where
  "show_nat n = (if n < 10 then [digit_char n] else show_nat (n div 10) @ [digit_char (n mod 10)])"

declare show_nat.simps [simp del]

definition show_int :: "int \<Rightarrow> string" where
  "show_int i = (if i < 0 then ''-'' @ show_nat (nat (- i)) else show_nat (nat i))"

text \<open>An entry of the pool is the object \<open>{ rootPc, quality }\<close>, here a pair.\<close>

type_synonym pool_entry = "int \<times> string"

text \<open>The first loop of \<open>generateQuestions\<close>: two entries for each root \<open>r\<close> from 0 to 11.\<close>

function build_pool :: "int \<Rightarrow> pool_entry list \<Rightarrow> pool_entry list" where
  "build_pool r pool =
     (if r < 12
      then build_pool (r + 1) (pool @ [(r, ''major''), (r, ''minor'')])
      else pool)"
  by pat_completeness auto
termination
  by (relation "measure (\<lambda>(r, pool). nat (12 - r))") auto

declare build_pool.simps [simp del]

text \<open>
  \<open>Math.random()\<close> is a source of numbers in the half-open interval from 0 to 1: the
  call number \<open>k\<close> of one run of \<open>generateQuestions\<close> returns \<open>rnd k\<close>.  The theorems
  about the generator assume those bounds.  The swap is the destructuring assignment
  \<open>[pool[i], pool[j]] = [pool[j], pool[i]]\<close>.
\<close>

definition swap_entries :: "'a list \<Rightarrow> nat \<Rightarrow> nat \<Rightarrow> 'a list" where
  "swap_entries pool i j = (pool[i := pool ! j])[j := pool ! i]"

text \<open>
  The shuffle loop, \<open>i\<close> running from \<open>pool.length - 1\<close> down to 1; it returns the pool
  and the number of calls of \<open>Math.random\<close> made so far.
\<close>

fun shuffle_loop :: "(nat \<Rightarrow> real) \<Rightarrow> nat \<Rightarrow> nat \<Rightarrow> 'a list \<Rightarrow> 'a list \<times> nat" where
  "shuffle_loop rnd calls 0 pool = (pool, calls)"
| "shuffle_loop rnd calls (Suc i') pool =
     (let i = Suc i';
          j = nat (Math_floor (rnd calls * real (i + 1)))
      in shuffle_loop rnd (calls + 1) i' (swap_entries pool i j))"

text \<open>The \<open>while\<close> loop that appends random draws until \<open>target\<close> entries are picked.\<close>

function fill_loop :: "(nat \<Rightarrow> real) \<Rightarrow> nat \<Rightarrow> int \<Rightarrow> 'a list \<Rightarrow> 'a list \<Rightarrow> 'a list" where
  "fill_loop rnd calls target pool picked =
     (if int (length picked) < target
      then fill_loop rnd (calls + 1) target pool
             (picked @ [pool ! nat (Math_floor (rnd calls * real (length pool)))])
      else picked)"
  by pat_completeness auto
termination
  by (relation "measure (\<lambda>(rnd, calls, target, pool, picked). nat (target - int (length picked)))")
     auto

declare fill_loop.simps [simp del]

definition make_question :: "pool_entry \<Rightarrow> nat \<Rightarrow> question" where
  "make_question q idx =
     \<lparr>id_q = ''q'' @ show_nat (idx + 1),
      rootPc = fst q,
      quality = snd q,
      correctPcs = triadPcs (fst q) (snd q),
      userPcs = [None, None, None],
      marks = 0\<rparr>"

definition generateQuestions :: "(nat \<Rightarrow> real) \<Rightarrow> jsnum \<Rightarrow> question list" where
  "generateQuestions rnd count_n =
     (let target = clampQuestions count_n;
          pool0 = build_pool 0 [];
          (pool, calls) = shuffle_loop rnd 0 (length pool0 - 1) pool0;
          picked0 = take (nat (min target (int (length pool)))) pool;
          picked = fill_loop rnd calls target pool picked0
      in map (\<lambda>(q, idx). make_question q idx) (zip picked [0..<length picked]))"

section \<open>Marking (script.js, lines 799-833) and the submit handler (lines 1082-1086)\<close>

text \<open>
  The page: the game state and the parts of the document that \<open>markAll\<close> writes.  The
  results summary holds the total, the maximum and the percentage that are printed.
  The mini keyboards drawn for each question are not modelled.
\<close>

record page =
  state :: game_state
  selectsDisabled :: bool
  submitBtnDisabled :: bool
  downloadScorecardBtnDisabled :: bool
  resultsPanelHidden :: bool
  resultsSummary :: "(int \<times> int \<times> jsnum) option"

text \<open>The test of one slot: \<open>user[i] != null && user[i] === correct[i]\<close>.\<close>

definition slot_correct :: "int option list \<Rightarrow> int list \<Rightarrow> nat \<Rightarrow> bool" where
  "slot_correct user correct i =
     (case js_at_nullable user i of
        None \<Rightarrow> False
      | Some u \<Rightarrow> js_at correct i = Some u)"

text \<open>The inner loop over the three slots.\<close>

definition question_marks :: "int option list \<Rightarrow> int list \<Rightarrow> int" where
  "question_marks user correct =
     foldl (\<lambda>m i. if slot_correct user correct i then m + 1 else m) 0 [0..<3]"

text \<open>The outer loop: it sets \<open>q.marks\<close> and adds to \<open>total\<close>, here \<open>tot\<close>.\<close>

fun mark_loop :: "question list \<Rightarrow> int \<Rightarrow> question list \<times> int" where
  "mark_loop [] tot = ([], tot)"
| "mark_loop (q # qs) tot =
     (let m = question_marks (userPcs q) (correctPcs q);
          (qs', tot') = mark_loop qs (tot + m)
      in (q\<lparr>marks := m\<rparr> # qs', tot'))"

text \<open>
  \<open>Math.round((total / max) * 1000) / 10\<close>.  With no question \<open>max\<close> is 0: the
  quotient \<open>0 / 0\<close> is \<open>NaN\<close>, and a quotient by 0 of another number is an infinity.
\<close>

definition percentage :: "int \<Rightarrow> int \<Rightarrow> jsnum" where
  "percentage tot mx =
     (if mx = 0 then (if tot = 0 then NaN else if 0 < tot then PosInf else NegInf)
      else Fin (real_of_int (Math_round ((real_of_int tot / real_of_int mx) * 1000)) / 10))"

definition markAll :: "page \<Rightarrow> page" where
  "markAll pg =
     (let mx = int (length (questions (state pg))) * 3;
          (qs, tot) = mark_loop (questions (state pg)) 0
      in pg\<lparr>state := (state pg)\<lparr>submitted := True, questions := qs\<rparr>,
            selectsDisabled := True,
            submitBtnDisabled := True,
            resultsSummary := Some (tot, mx, percentage tot mx),
            resultsPanelHidden := False,
            downloadScorecardBtnDisabled := False\<rparr>)"

definition validateBeforeSubmit :: bool where
  "validateBeforeSubmit = True"

definition submit_click :: "page \<Rightarrow> page" where
  "submit_click pg =
     (if \<not> started (state pg) \<or> submitted (state pg) then pg
      else if \<not> validateBeforeSubmit then pg
      else markAll pg)"

section \<open>Audio (script.js, lines 90-254)\<close>

text \<open>
  The audio globals of the script and the parts of the browser they depend on.
  \<open>hasAudioContext\<close> says whether \<open>window.AudioContext\<close> (or its webkit variant) exists;
  \<open>audioCtx\<close> whether the context has been created (\<open>masterGain\<close> and \<open>limiter\<close> are
  created with it); \<open>currentTime\<close> is the clock of the context.  A decoded buffer is an
  opaque value, here a number.  The map \<open>bufferPromiseCache\<close> holds for a URL the settled
  value of its promise: a buffer, or \<open>null\<close> (\<open>None\<close>) for a failed load.  An alert is one
  of the two messages of the script: that Web Audio is not supported, or
  \<open>`Missing audio sample: ${url}`\<close>.
\<close>

type_synonym audio_buffer = nat

datatype alert_msg = web_audio_unsupported | missing_audio_sample string

record voice =
  src_buffer :: audio_buffer
  startTime :: real
  peakGain :: real
  fadeStart :: real
  endAt :: real
  stopAt :: real

record audio =
  hasAudioContext :: bool
  audioCtx :: bool
  currentTime :: real
  bufferPromiseCache :: "string \<rightharpoonup> audio_buffer option"
  activeVoices :: "voice list"
  alerts :: "alert_msg list"

text \<open>The whole application: the page with the game state, and the audio globals.\<close>

record app =
  doc :: page
  sound :: audio

definition AUDIO_DIR :: string where
  "AUDIO_DIR = ''audio''"

definition FADE_OUT_SEC :: real where
  "FADE_OUT_SEC = 12 / 100"

definition PC_TO_STEM :: "(int \<times> string) list" where
  "PC_TO_STEM =
     [(0, ''c''), (1, ''csharp''), (2, ''d''), (3, ''dsharp''), (4, ''e''), (5, ''f''),
      (6, ''fsharp''), (7, ''g''), (8, ''gsharp''), (9, ''a''), (10, ''asharp''), (11, ''b'')]"

text \<open>A string is truthy if it is present and not empty.\<close>

definition truthy_str :: "string option \<Rightarrow> bool" where
  "truthy_str v = (case v of None \<Rightarrow> False | Some t \<Rightarrow> t \<noteq> [])"

text \<open>\<open>ensureAudioGraph\<close> returns whether it has a context, and the globals.\<close>

definition ensureAudioGraph :: "audio \<Rightarrow> bool \<times> audio" where
  "ensureAudioGraph a =
     (if audioCtx a then (True, a)
      else if \<not> hasAudioContext a then (False, a\<lparr>alerts := alerts a @ [web_audio_unsupported]\<rparr>)
      else (True, a\<lparr>audioCtx := True\<rparr>))"

text \<open>Resuming a suspended context changes none of the globals above.\<close>

definition resumeAudioIfNeeded :: "audio \<Rightarrow> audio" where
  "resumeAudioIfNeeded a = (let (ctx, a') = ensureAudioGraph a in a')"

definition noteUrl :: "string \<Rightarrow> int \<Rightarrow> string" where
  "noteUrl stem octaveNum = AUDIO_DIR @ ''/'' @ stem @ show_int octaveNum @ ''.mp3''"

text \<open>
  \<open>loadBuffer\<close>: \<open>fetch_decode url\<close> is what fetching and decoding \<open>url\<close> gives,
  \<open>None\<close> for a response that is not ok or an exception.
\<close>

definition loadBuffer :: "(string \<Rightarrow> audio_buffer option) \<Rightarrow> string \<Rightarrow> audio
    \<Rightarrow> audio_buffer option \<times> audio" where
  "loadBuffer fetch_decode url a =
     (case bufferPromiseCache a url of
        Some p \<Rightarrow> (p, a)
      | None \<Rightarrow>
          let (ctx, a') = ensureAudioGraph a;
              p = (if \<not> ctx then None else fetch_decode url)
          in (p, a'\<lparr>bufferPromiseCache := (bufferPromiseCache a')(url \<mapsto> p)\<rparr>))"

definition getStemForPc :: "int \<Rightarrow> string option" where
  "getStemForPc pc =
     (case map_of PC_TO_STEM (js_rem (pc + 12) 12) of
        None \<Rightarrow> None
      | Some stem \<Rightarrow> if truthy_str (Some stem) then Some stem else None)"

record load_result =
  missingUrl :: "string option"
  buffer :: "audio_buffer option"

definition loadPitchBuffer :: "(string \<Rightarrow> audio_buffer option) \<Rightarrow> int \<Rightarrow> audio
    \<Rightarrow> load_result \<times> audio" where
  "loadPitchBuffer fetch_decode pitch a =
     (let pc = pcFromPitch pitch;
          oct = octFromPitch pitch
      in case getStemForPc pc of
           None \<Rightarrow> (\<lparr>missingUrl = None, buffer = None\<rparr>, a)
         | Some stem \<Rightarrow>
             let url = noteUrl stem oct;
                 (buf, a') = loadBuffer fetch_decode url a
             in (case buf of
                   None \<Rightarrow> (\<lparr>missingUrl = Some url, buffer = None\<rparr>, a')
                 | Some b \<Rightarrow> (\<lparr>missingUrl = None, buffer = Some b\<rparr>, a')))"

text \<open>
  \<open>Promise.all(pitches.map(loadPitchBuffer))\<close>: the loads start in the order of the
  pitches, each looking the cache up and filling it before the next one starts, and the
  results come back in that order.
\<close>

fun load_all :: "(string \<Rightarrow> audio_buffer option) \<Rightarrow> int list \<Rightarrow> audio
    \<Rightarrow> load_result list \<times> audio" where
  "load_all fetch_decode [] a = ([], a)"
| "load_all fetch_decode (pitch # pitches) a =
     (let (r, a1) = loadPitchBuffer fetch_decode pitch a;
          (rs, a2) = load_all fetch_decode pitches a1
      in (r # rs, a2))"

text \<open>
  \<open>playBufferWindowed\<close> with a finite \<open>gain\<close>: it makes a source with its gain envelope
  and tracks it as an active voice.
\<close>

definition playBufferWindowed :: "audio_buffer \<Rightarrow> real \<Rightarrow> real \<Rightarrow> real \<Rightarrow> real \<Rightarrow> audio
    \<Rightarrow> audio" where
  "playBufferWindowed b whenSec playSec fadeOutSec gain a =
     (let (ctx, a') = ensureAudioGraph a
      in if \<not> ctx then a'
         else
           let safeGain = max 0 gain;
               end_at = whenSec + max (5 / 100) playSec;
               fade_start = max (whenSec + 2 / 100) (end_at - max (6 / 100) fadeOutSec)
           in a'\<lparr>activeVoices := activeVoices a' @
                  [\<lparr>src_buffer = b, startTime = whenSec, peakGain = safeGain,
                    fadeStart = fade_start, endAt = end_at, stopAt = end_at + 3 / 100\<rparr>]\<rparr>)"

text \<open>\<open>playPitchesWindowed\<close> returns its boolean and the application after the call.\<close>

definition playPitchesWindowed :: "(string \<Rightarrow> audio_buffer option) \<Rightarrow> int list \<Rightarrow> real
    \<Rightarrow> app \<Rightarrow> bool \<times> app" where
  "playPitchesWindowed fetch_decode pitches playSec ap =
     (let a1 = resumeAudioIfNeeded (sound ap);
          (ctx, a2) = ensureAudioGraph a1
      in if \<not> ctx then (False, ap\<lparr>sound := a2\<rparr>)
         else
           let whenSec = currentTime a2 + 3 / 100;
               (results, a3) = load_all fetch_decode pitches a2;
               missing = find (\<lambda>r. truthy_str (missingUrl r)) results
           in case (case missing of
                      None \<Rightarrow> None
                    | Some m \<Rightarrow> if truthy_str (missingUrl m) then missingUrl m else None) of
                Some url \<Rightarrow>
                  (False, ap\<lparr>sound := a3\<lparr>alerts := alerts a3 @ [missing_audio_sample url]\<rparr>\<rparr>)
              | None \<Rightarrow>
                  let bufs = List.map_filter buffer results
                  in if bufs = [] then (False, ap\<lparr>sound := a3\<rparr>)
                     else
                       let perNoteGain = (8 / 10) / real (max 1 (length bufs));
                           a4 = foldl (\<lambda>a b. playBufferWindowed b whenSec playSec FADE_OUT_SEC
                                                 perNoteGain a) a3 bufs
                       in (True, ap\<lparr>sound := a4\<rparr>))"

section \<open>Specification functions\<close>

text \<open>
  The closed form of the upward scan: the least pitch at or above \<open>b\<close> that is congruent
  to \<open>pc\<close> modulo 12.  It is not part of the script; the scan is compared with it below.
\<close>

definition next_at :: "int \<Rightarrow> int \<Rightarrow> int" where
  "next_at pc b = b + (pc - b) mod 12"

text \<open>
  The voicing computed on exact integers, for the integer octave \<open>k\<close>; the voicing of the
  script is compared with it below, where the doubles hold every value.
\<close>

definition answered_int :: "int option list \<Rightarrow> int \<Rightarrow> int list" where
  "answered_int pcs k =
    (let p0 = js_at_nullable pcs 0;
         p1 = js_at_nullable pcs 1;
         p2 = js_at_nullable pcs 2
     in if p0 = None \<and> p1 = None \<and> p2 = None then []
        else
          let first = (case p0 of
                         None \<Rightarrow> next_at 0 (max 0 (k * 12))
                       | Some v \<Rightarrow> k * 12 + v);
              third = (case p1 of
                         None \<Rightarrow> None
                       | Some v \<Rightarrow> Some (next_at v (max 0 (first + 1))));
              fifth = (case p2 of
                         None \<Rightarrow> None
                       | Some v \<Rightarrow> Some (next_at v
                           (max 0 ((case third of None \<Rightarrow> first | Some t \<Rightarrow> t) + 1))))
          in first # (case third of None \<Rightarrow> [] | Some t \<Rightarrow> [t])
                   @ (case fifth of None \<Rightarrow> [] | Some f \<Rightarrow> [f]))"

text \<open>The (rootPc, quality) pair of a question, and the pool written out.\<close>

definition triad_of :: "question \<Rightarrow> pool_entry" where
  "triad_of q = (rootPc q, quality q)"

definition full_pool :: "pool_entry list" where
  "full_pool = [(0, ''major''), (0, ''minor''), (1, ''major''), (1, ''minor''),
                (2, ''major''), (2, ''minor''), (3, ''major''), (3, ''minor''),
                (4, ''major''), (4, ''minor''), (5, ''major''), (5, ''minor''),
                (6, ''major''), (6, ''minor''), (7, ''major''), (7, ''minor''),
                (8, ''major''), (8, ''minor''), (9, ''major''), (9, ''minor''),
                (10, ''major''), (10, ''minor''), (11, ''major''), (11, ''minor'')]"

text \<open>
  For the audio part: the URL of the sample of a pitch, what loading a URL gives in an
  audio state (the cached value, else the outcome of fetching and decoding), the
  result object of \<open>loadPitchBuffer\<close> for such an outcome, and the voice that
  \<open>playBufferWindowed\<close> tracks.
\<close>

definition sample_url :: "int \<Rightarrow> string" where
  "sample_url pitch =
     (case getStemForPc (pcFromPitch pitch) of
        None \<Rightarrow> []
      | Some stem \<Rightarrow> noteUrl stem (octFromPitch pitch))"

definition resolved :: "(string \<Rightarrow> audio_buffer option) \<Rightarrow> audio \<Rightarrow> string \<Rightarrow> audio_buffer option" where
  "resolved fetch_decode a url =
     (case bufferPromiseCache a url of Some p \<Rightarrow> p | None \<Rightarrow> fetch_decode url)"

definition result_for :: "audio_buffer option \<Rightarrow> string \<Rightarrow> load_result" where
  "result_for p url =
     (case p of
        None \<Rightarrow> \<lparr>missingUrl = Some url, buffer = None\<rparr>
      | Some b \<Rightarrow> \<lparr>missingUrl = None, buffer = Some b\<rparr>)"

definition make_voice :: "real \<Rightarrow> real \<Rightarrow> real \<Rightarrow> real \<Rightarrow> audio_buffer \<Rightarrow> voice" where
  "make_voice whenSec playSec fadeOutSec gain b =
     \<lparr>src_buffer = b, startTime = whenSec, peakGain = max 0 gain,
      fadeStart = max (whenSec + 2 / 100) (whenSec + max (5 / 100) playSec - max (6 / 100) fadeOutSec),
      endAt = whenSec + max (5 / 100) playSec,
      stopAt = whenSec + max (5 / 100) playSec + 3 / 100\<rparr>"

section \<open>Properties of double rounding\<close>

lemma pow2_powr: "pow2 i = 2 powr real_of_int i"
  by (simp add: pow2_def powr_int)

lemma pow2_pos: "0 < pow2 i"
  by (simp add: pow2_powr)

lemma pow2_add: "pow2 (a + b) = pow2 a * pow2 b"
  by (simp add: pow2_powr powr_add)

lemma pow2_mono: "a \<le> b \<Longrightarrow> pow2 a \<le> pow2 b"
  by (simp add: pow2_powr)

lemma pow2_less_iff: "pow2 a < pow2 b \<longleftrightarrow> a < b"
  by (simp add: pow2_powr)

lemma pow2_nat: "pow2 (int n) = 2 ^ n"
  by (simp add: pow2_def)

lemma expo_bounds: "0 < x \<Longrightarrow> pow2 (expo x) \<le> x \<and> x < pow2 (expo x + 1)"
proof (induction x rule: expo.induct)
  case (1 x)
  show ?case
  proof (cases "2 \<le> x")
    case True
    then have e: "expo x = expo (x / 2) + 1" by (subst expo.simps) simp
    from "1.IH"(1) [OF True] "1.prems"
    have "pow2 (expo (x / 2)) \<le> x / 2 \<and> x / 2 < pow2 (expo (x / 2) + 1)" by simp
    then show ?thesis unfolding e pow2_add [of _ 1] by (simp add: pow2_def)
  next
    case False
    show ?thesis
    proof (cases "x < 1")
      case True
      with "1.prems" False have e: "expo x = expo (2 * x) - 1" by (subst expo.simps) simp
      from "1.IH"(2) [OF False] True "1.prems"
      have ih: "pow2 (expo (2 * x)) \<le> 2 * x \<and> 2 * x < pow2 (expo (2 * x) + 1)" by simp
      have s: "pow2 (expo (2 * x)) = pow2 (expo (2 * x) - 1) * 2"
        using pow2_add [of "expo (2 * x) - 1" 1] by (simp add: pow2_def)
      have s2: "pow2 (expo (2 * x) + 1) = pow2 (expo (2 * x)) * 2"
        using pow2_add [of "expo (2 * x)" 1] by (simp add: pow2_def)
      from ih show ?thesis unfolding e using s s2 by simp
    next
      case False
      with \<open>\<not> 2 \<le> x\<close> have "expo x = 0" by (subst expo.simps) simp
      with False \<open>\<not> 2 \<le> x\<close> show ?thesis by (simp add: pow2_def)
    qed
  qed
qed

lemma expo_unique:
  assumes "pow2 k \<le> x" "x < pow2 (k + 1)"
  shows "expo x = k"
proof -
  have x: "0 < x" using assms(1) pow2_pos [of k] by linarith
  from expo_bounds [OF x] assms
  have "pow2 k < pow2 (expo x + 1)" "pow2 (expo x) < pow2 (k + 1)" by linarith+
  then show ?thesis by (simp add: pow2_less_iff)
qed


lemma round_even_int: "round_even (real_of_int k) = k"
  by (simp add: round_even_def)

lemma round_even_near: "\<bar>real_of_int (round_even m) - m\<bar> \<le> 1 / 2"
  unfolding round_even_def Let_def by (auto; linarith)

lemma round53_exact_int:
  assumes "\<bar>n\<bar> \<le> 2 ^ 53"
  shows "round53 (real_of_int n) = real_of_int n"
proof (cases "n = 0")
  case True
  then show ?thesis by (simp add: round53_def)
next
  case False
  let ?x = "real_of_int n"
  let ?e = "expo \<bar>?x\<bar>"
  have pos: "0 < \<bar>?x\<bar>" using False by simp
  note b = expo_bounds [OF pos]
  have ge1: "1 \<le> \<bar>?x\<bar>" using False by (metis abs_ge_zero of_int_abs of_int_1_le_iff not_less zless_imp_add1_zle zero_less_abs_iff add_0 of_int_0_less_iff)
  have le53: "\<bar>?x\<bar> \<le> pow2 53"
  proof -
    have "real_of_int \<bar>n\<bar> \<le> real_of_int (2 ^ 53)" using assms by (simp only: of_int_le_iff)
    then show ?thesis by (simp add: pow2_def)
  qed
  have "pow2 0 < pow2 (?e + 1)" using b ge1 by (simp add: pow2_def)
  then have e0: "0 \<le> ?e" by (simp add: pow2_less_iff)
  have "pow2 ?e < pow2 54"
  proof -
    have "pow2 53 < pow2 54" by (simp add: pow2_less_iff)
    with b le53 show ?thesis by linarith
  qed
  then have e53: "?e \<le> 53" by (simp add: pow2_less_iff)
  have mx: "max (- 1022) ?e = ?e" using e0 by simp
  let ?u = "pow2 (?e - 52)"
  have upos: "0 < ?u" by (rule pow2_pos)
  have "\<exists>k. ?x / ?u = real_of_int k"
  proof (cases "?e \<le> 52")
    case True
    have "pow2 (?e - 52) * pow2 (52 - ?e) = 1"
      using pow2_add [of "?e - 52" "52 - ?e"] by (simp add: pow2_def)
    then have "?x / ?u = ?x * pow2 (52 - ?e)" using upos by (simp add: field_simps)
    also have "\<dots> = real_of_int (n * 2 ^ nat (52 - ?e))" using True by (simp add: pow2_def)
    finally show ?thesis by blast
  next
    case False
    with e53 have e: "?e = 53" by simp
    then have "pow2 53 \<le> \<bar>?x\<bar>" using b by simp
    with le53 have ax: "\<bar>?x\<bar> = 2 ^ 53" by (simp add: pow2_def)
    have u: "?u = 2" unfolding e by (simp add: pow2_def)
    have "?x / ?u = real_of_int (n div 2)"
    proof -
      from ax have "\<bar>n\<bar> = 2 ^ 53" by (metis of_int_abs of_int_eq_iff of_int_numeral of_int_power)
      then have "even n" by (metis even_abs_add_iff even_add even_numeral even_power zero_less_numeral)
      then show ?thesis unfolding u by (simp add: real_of_int_div)
    qed
    then show ?thesis by blast
  qed
  then obtain k where k: "?x / ?u = real_of_int k" by blast
  have "round53 ?x = ?u * real_of_int (round_even (?x / ?u))"
    using False by (simp add: round53_def Let_def mx)
  also have "\<dots> = ?u * (?x / ?u)" unfolding k round_even_int ..
  also have "\<dots> = ?x" using upos by simp
  finally show ?thesis .
qed

lemma round53_error:
  assumes "pow2 (- 1022) \<le> \<bar>x\<bar>"
  shows "\<bar>round53 x - x\<bar> \<le> \<bar>x\<bar> / 2 ^ 53"
proof -
  let ?e = "expo \<bar>x\<bar>"
  have pos: "0 < \<bar>x\<bar>" using assms pow2_pos [of "- 1022"] by linarith
  then have nz: "x \<noteq> 0" by simp
  note b = expo_bounds [OF pos]
  have "pow2 (- 1022) < pow2 (?e + 1)" using b assms by linarith
  then have mx: "max (- 1022) ?e = ?e" by (simp add: pow2_less_iff)
  let ?u = "pow2 (?e - 52)"
  have upos: "0 < ?u" by (rule pow2_pos)
  have r: "round53 x = ?u * real_of_int (round_even (x / ?u))"
    using nz by (simp add: round53_def Let_def mx)
  have "round53 x - x = ?u * (real_of_int (round_even (x / ?u)) - x / ?u)"
    unfolding r using upos by (simp add: field_simps)
  then have "\<bar>round53 x - x\<bar> = ?u * \<bar>real_of_int (round_even (x / ?u)) - x / ?u\<bar>"
    using upos by (simp add: abs_mult)
  also have "\<dots> \<le> ?u * (1 / 2)"
    using round_even_near [of "x / ?u"] upos by (intro mult_left_mono) simp_all
  also have "\<dots> = pow2 ?e / 2 ^ 53"
    using pow2_add [of ?e "- 53"] pow2_add [of "?e - 52" "- 1"] by (simp add: pow2_def)
  also have "\<dots> \<le> \<bar>x\<bar> / 2 ^ 53" using b by (simp add: divide_right_mono)
  finally show ?thesis .
qed

lemma floor_round53_div12:
  assumes "\<bar>p\<bar> < 2 ^ 53"
  shows "\<lfloor>round53 (real_of_int p / 12)\<rfloor> = p div 12"
proof (cases "12 dvd p")
  case True
  then obtain q where q: "p = 12 * q" by (rule dvdE)
  then have "\<bar>q\<bar> \<le> 2 ^ 53" using assms by simp
  then have "round53 (real_of_int q) = real_of_int q" by (rule round53_exact_int)
  then show ?thesis unfolding q by simp
next
  case False
  let ?x = "real_of_int p / 12"
  let ?n = "p div 12"
  have r: "1 \<le> p mod 12 \<and> p mod 12 \<le> 11"
    using False by (simp add: dvd_eq_mod_eq_0) (smt (verit) pos_mod_bound pos_mod_sign)
  have x: "?x = real_of_int ?n + real_of_int (p mod 12) / 12"
  proof -
    have "real_of_int p = real_of_int (12 * ?n + p mod 12)" by simp
    then show ?thesis by (simp only: of_int_add of_int_mult) (simp add: field_simps)
  qed
  have lo: "real_of_int ?n + 1 / 12 \<le> ?x" and hi: "?x \<le> real_of_int ?n + 11 / 12"
    unfolding x using r by simp_all
  have pz: "p \<noteq> 0" using False by auto
  have ax: "\<bar>?x\<bar> < 2 ^ 53 / 12"
  proof -
    have "real_of_int \<bar>p\<bar> < real_of_int (2 ^ 53)" using assms by (simp only: of_int_less_iff)
    then show ?thesis by simp
  qed
  have ax1: "1 / 12 \<le> \<bar>?x\<bar>"
  proof -
    have "1 \<le> \<bar>p\<bar>" using pz by simp
    then have "1 \<le> real_of_int \<bar>p\<bar>" by (simp only: of_int_1_le_iff)
    then show ?thesis by simp
  qed
  have "pow2 (- 1022) \<le> 1 / 12" by (simp add: pow2_def) 
  with ax1 have "pow2 (- 1022) \<le> \<bar>?x\<bar>" by linarith
  from round53_error [OF this] have "\<bar>round53 ?x - ?x\<bar> \<le> \<bar>?x\<bar> / 2 ^ 53" .
  also have "\<dots> < 1 / 12" using ax by (simp add: field_simps)
  finally have err: "\<bar>round53 ?x - ?x\<bar> < 1 / 12" .
  have "real_of_int ?n \<le> round53 ?x" "round53 ?x < real_of_int ?n + 1"
    using err lo hi by linarith+
  then show ?thesis by (simp add: floor_eq_iff)
qed

lemma round53_twice:
  assumes "pow2 (- 1022) \<le> \<bar>x\<bar>"
  shows "round53 (2 * x) = 2 * round53 x"
proof -
  let ?e = "expo \<bar>x\<bar>"
  have pos: "0 < \<bar>x\<bar>" using assms pow2_pos [of "- 1022"] by linarith
  then have nz: "x \<noteq> 0" by simp
  note b = expo_bounds [OF pos]
  have "pow2 (- 1022) < pow2 (?e + 1)" using b assms by linarith
  then have lo: "- 1022 \<le> ?e" by (simp add: pow2_less_iff)
  have s1: "pow2 (?e + 1) = 2 * pow2 ?e" using pow2_add [of ?e 1] by (simp add: pow2_def)
  have s2: "pow2 (?e + 1 + 1) = 2 * pow2 (?e + 1)"
    using pow2_add [of "?e + 1" 1] by (simp add: pow2_def)
  have "expo \<bar>2 * x\<bar> = ?e + 1"
    by (rule expo_unique) (use b s1 s2 in \<open>simp_all add: abs_mult\<close>)
  moreover have "pow2 (?e + 1 - 52) = 2 * pow2 (?e - 52)"
    using pow2_add [of "?e - 52" 1] by (simp add: pow2_def add.commute)
  ultimately show ?thesis using nz lo pow2_pos [of "?e - 52"]
    by (simp add: round53_def Let_def)
qed

lemma round53_exact_even:
  assumes "\<bar>n\<bar> \<le> 2 ^ 54" "even n"
  shows "round53 (real_of_int n) = real_of_int n"
proof (cases "n = 0")
  case True
  then show ?thesis by (simp add: round53_def)
next
  case False
  from assms(2) obtain m where m: "n = 2 * m" by (rule evenE)
  with False have mz: "m \<noteq> 0" by simp
  have mb: "\<bar>m\<bar> \<le> 2 ^ 53" using assms(1) unfolding m by simp
  have "1 \<le> \<bar>m\<bar>" using mz by simp
  then have "1 \<le> real_of_int \<bar>m\<bar>" by (simp only: of_int_1_le_iff)
  moreover have "pow2 (- 1022) \<le> 1" by (simp add: pow2_def)
  ultimately have "pow2 (- 1022) \<le> \<bar>real_of_int m\<bar>" by simp
  from round53_twice [OF this] round53_exact_int [OF mb]
  show ?thesis unfolding m by simp
qed

lemma round53_at:
  assumes "pow2 k \<le> \<bar>x\<bar>" "\<bar>x\<bar> < pow2 (k + 1)" "- 1022 \<le> k"
  shows "round53 x = pow2 (k - 52) * real_of_int (round_even (x / pow2 (k - 52)))"
proof -
  have "0 < \<bar>x\<bar>" using assms(1) pow2_pos [of k] by linarith
  then have "x \<noteq> 0" by simp
  moreover have "expo \<bar>x\<bar> = k" using assms(1,2) by (rule expo_unique)
  ultimately show ?thesis using assms(3) by (simp add: round53_def Let_def)
qed

lemma to_double_int:
  assumes "\<bar>n\<bar> \<le> 2 ^ 53"
  shows "to_double (real_of_int n) = Fin (real_of_int n)"
proof -
  have "real_of_int \<bar>n\<bar> \<le> real_of_int (2 ^ 53)" using assms by (simp only: of_int_le_iff)
  then have b: "\<bar>real_of_int n\<bar> \<le> 2 ^ 53" by simp
  have "(2::real) ^ 53 < 2 ^ 1024" by simp
  with b have "real_of_int n < 2 ^ 1024" "- (2 ^ 1024) < real_of_int n" by linarith+
  then show ?thesis by (simp add: to_double_def round53_exact_int [OF assms])
qed

lemma js_add_int:
  "\<bar>a + b\<bar> \<le> 2 ^ 53 \<Longrightarrow>
   js_add (Fin (real_of_int a)) (Fin (real_of_int b)) = Fin (real_of_int (a + b))"
  using to_double_int [of "a + b"] by simp

lemma js_mul_int:
  "\<bar>a * b\<bar> \<le> 2 ^ 53 \<Longrightarrow>
   js_mul (Fin (real_of_int a)) (Fin (real_of_int b)) = Fin (real_of_int (a * b))"
  using to_double_int [of "a * b"] by simp

lemma js_trunc_div12:
  "js_trunc (real_of_int p / 12) = (if 0 \<le> p then p div 12 else - (- p div 12))"
proof -
  have "\<lfloor>real_of_int p / real_of_int 12\<rfloor> = p div 12" by (rule floor_divide_of_int_eq)
  moreover have "\<lceil>real_of_int p / real_of_int 12\<rceil> = - (- p div 12)"
    by (rule ceiling_divide_eq_div)
  ultimately show ?thesis by (simp add: js_trunc_def)
qed

lemma js_mod12_int: "js_mod (Fin (real_of_int p)) (Fin 12) = Fin (real_of_int (js_rem p 12))"
proof (cases "0 \<le> p")
  case True
  have "p - 12 * (p div 12) = p mod 12" by (simp add: minus_mult_div_eq_mod)
  then have "real_of_int p - 12 * real_of_int (p div 12) = real_of_int (p mod 12)"
    by (metis of_int_diff of_int_mult of_int_numeral)
  with True show ?thesis by (simp add: js_trunc_div12 js_rem_def sgn_if)
next
  case False
  have "(- p) - 12 * (- p div 12) = (- p) mod 12" by (simp add: minus_mult_div_eq_mod)
  then have "p + 12 * (- p div 12) = - ((- p) mod 12)" by simp
  then have "real_of_int p + 12 * real_of_int (- p div 12) = - real_of_int ((- p) mod 12)"
    by (metis of_int_add of_int_mult of_int_numeral of_int_minus)
  with False show ?thesis by (simp add: js_trunc_div12 js_rem_def sgn_if)
qed

section \<open>Properties of the pitch helpers\<close>

lemma js_rem_nonneg: "0 \<le> a \<Longrightarrow> js_rem a 12 = a mod 12"
  by (simp add: js_rem_def sgn_if)

lemma js_rem_bounds: "- 12 < js_rem a 12 \<and> js_rem a 12 < 12"
proof -
  have "0 \<le> \<bar>a\<bar> mod 12 \<and> \<bar>a\<bar> mod 12 < 12" by simp
  then show ?thesis
    unfolding js_rem_def sgn_if by (cases "a = 0"; cases "0 < a"; simp)
qed

lemma js_rem_cong12: "js_rem a 12 mod 12 = a mod 12"
proof (cases "0 \<le> a")
  case True
  then show ?thesis by (simp add: js_rem_nonneg)
next
  case False
  then have "js_rem a 12 = - ((- a) mod 12)" by (simp add: js_rem_def sgn_if)
  then show ?thesis by (simp add: mod_minus_eq)
qed

lemma pcFromPitch_mod: "pcFromPitch p = p mod 12"
proof -
  have nn: "0 \<le> js_rem p 12 + 12" using js_rem_bounds [of p] by simp
  have "pcFromPitch p = (js_rem p 12 + 12) mod 12"
    unfolding pcFromPitch_def using nn by (rule js_rem_nonneg)
  also have "\<dots> = js_rem p 12 mod 12" by simp
  also have "\<dots> = p mod 12" by (rule js_rem_cong12)
  finally show ?thesis .
qed

lemma pcFromPitch_num_int:
  "pcFromPitch_num (Fin (real_of_int p)) = Fin (real_of_int (pcFromPitch p))"
proof -
  have b: "\<bar>js_rem p 12 + 12\<bar> \<le> 2 ^ 53" using js_rem_bounds [of p] by simp
  have "js_add (Fin (real_of_int (js_rem p 12))) (Fin (real_of_int 12))
        = Fin (real_of_int (js_rem p 12 + 12))"
    using b by (rule js_add_int)
  then have "js_add (Fin (real_of_int (js_rem p 12))) (Fin 12)
        = Fin (real_of_int (js_rem p 12 + 12))" by simp
  then show ?thesis
    unfolding pcFromPitch_num_def pcFromPitch_def js_mod12_int by (simp only: js_mod12_int)
qed

lemma octFromPitch_div: "\<bar>p\<bar> < 2 ^ 53 \<Longrightarrow> octFromPitch p = p div 12"
  unfolding octFromPitch_def Math_floor_def by (rule floor_round53_div12)

lemma pitchFromPcOct_int:
  assumes "\<bar>oct\<bar> * 12 \<le> 2 ^ 54" and "\<bar>oct * 12 + pc\<bar> \<le> 2 ^ 53"
  shows "pitchFromPcOct (Fin (real_of_int pc)) (Fin (real_of_int oct))
         = Fin (real_of_int (oct * 12 + pc))"
proof -
  have b: "\<bar>oct * 12\<bar> \<le> 2 ^ 54" using assms(1) by (simp add: abs_mult)
  have "round53 (real_of_int (oct * 12)) = real_of_int (oct * 12)"
    using b by (rule round53_exact_even) simp
  moreover have "\<bar>real_of_int (oct * 12)\<bar> < 2 ^ 1024"
  proof -
    have "real_of_int \<bar>oct * 12\<bar> \<le> real_of_int (2 ^ 54)" using b by (simp only: of_int_le_iff)
    moreover have "(2::real) ^ 54 < 2 ^ 1024" by simp
    ultimately show ?thesis by simp
  qed
  ultimately have "to_double (real_of_int (oct * 12)) = Fin (real_of_int (oct * 12))"
    by (simp add: to_double_def abs_less_iff)
  then have m: "js_mul (Fin (real_of_int oct)) (Fin 12) = Fin (real_of_int (oct * 12))" by simp
  show ?thesis unfolding pitchFromPcOct_def m using assms(2) by (rule js_add_int)
qed

text \<open>
  Claim C4, amended.  For every integer pitch \<open>p\<close>, negative ones included, the pitch class
  \<open>((p % 12) + 12) % 12\<close> lies in 0..11.  For every integer \<open>p\<close> of magnitude below
  \<open>2 ^ 53\<close>, where the doubles of the script hold every integer, the octave
  \<open>Math.floor(p / 12)\<close> is the floor quotient of \<open>p\<close> by 12 and \<open>pitchFromPcOct\<close> of
  the two gives \<open>p\<close> back.
\<close>

theorem pitch_roundtrip:
  "0 \<le> pcFromPitch p \<and> pcFromPitch p \<le> 11
   \<and> pcFromPitch p = js_rem (js_rem p 12 + 12) 12
   \<and> (\<bar>p\<bar> < 2 ^ 53 \<longrightarrow>
        octFromPitch p = \<lfloor>real_of_int p / 12\<rfloor>
        \<and> octFromPitch p = p div 12
        \<and> pitchFromPcOct (Fin (real_of_int (pcFromPitch p))) (Fin (real_of_int (octFromPitch p)))
            = Fin (real_of_int p))"
proof -
  have pc: "0 \<le> pcFromPitch p \<and> pcFromPitch p \<le> 11" by (simp add: pcFromPitch_mod)
  have df: "pcFromPitch p = js_rem (js_rem p 12 + 12) 12" by (simp add: pcFromPitch_def)
  have rt: "octFromPitch p = \<lfloor>real_of_int p / 12\<rfloor> \<and> octFromPitch p = p div 12
        \<and> pitchFromPcOct (Fin (real_of_int (pcFromPitch p))) (Fin (real_of_int (octFromPitch p)))
            = Fin (real_of_int p)" if b: "\<bar>p\<bar> < 2 ^ 53"
  proof -
    have o: "octFromPitch p = p div 12" using b by (rule octFromPitch_div)
    have fl: "\<lfloor>real_of_int p / 12\<rfloor> = p div 12"
      using floor_divide_of_int_eq [of p 12, where ?'a = real] by simp
    have sum: "p div 12 * 12 + p mod 12 = p" by simp
    have m: "0 \<le> p mod 12 \<and> p mod 12 < 12" by simp
    have p2: "(2::int) ^ 54 = 2 * 2 ^ 53" and big: "12 \<le> (2::int) ^ 53" by simp_all
    have b1: "\<bar>p div 12\<bar> * 12 \<le> 2 ^ 54" using b m sum p2 big by linarith
    have b2: "\<bar>p div 12 * 12 + p mod 12\<bar> \<le> 2 ^ 53" unfolding sum using b by simp
    from pitchFromPcOct_int [OF b1 b2]
    show ?thesis unfolding o pcFromPitch_mod sum using fl by simp
  qed
  from pc df rt show ?thesis by blast
qed

theorem pitch_roundtrip_witness:
  "\<bar>- 13 :: int\<bar> < 2 ^ 53 \<and> pcFromPitch (- 13) = 11 \<and> octFromPitch (- 13) = - 2
   \<and> pitchFromPcOct (Fin 11) (Fin (- 2)) = Fin (- 13)"
proof -
  have b: "\<bar>- 13 :: int\<bar> < 2 ^ 53" by simp
  have pc: "pcFromPitch (- 13) = 11" by (simp add: pcFromPitch_def js_rem_def)
  from pitch_roundtrip [of "- 13"] b
  have "octFromPitch (- 13) = - 13 div 12"
    and "pitchFromPcOct (Fin (real_of_int (pcFromPitch (- 13))))
           (Fin (real_of_int (octFromPitch (- 13)))) = Fin (real_of_int (- 13))"
    by blast+
  then have "octFromPitch (- 13) = - 2" "pitchFromPcOct (Fin 11) (Fin (- 2)) = Fin (- 13)"
    by (simp_all add: pc)
  with b pc show ?thesis by blast
qed

text \<open>
  Claim C4 as stated, for every integer pitch, fails on the doubles of the script: the
  pitch \<open>2 ^ 55 + 8\<close> is a double, its pitch class is 4 and its octave
  3002399751580331, but \<open>oct * 12\<close> and then \<open>+ 4\<close> round to \<open>2 ^ 55\<close>.
\<close>

theorem pitch_roundtrip_counterexample:
  "pcFromPitch 36028797018963976 = 4
   \<and> octFromPitch 36028797018963976 = 3002399751580331
   \<and> pitchFromPcOct (Fin (real_of_int (pcFromPitch 36028797018963976)))
        (Fin (real_of_int (octFromPitch 36028797018963976))) = Fin 36028797018963968
   \<and> pitchFromPcOct (Fin (real_of_int (pcFromPitch 36028797018963976)))
        (Fin (real_of_int (octFromPitch 36028797018963976)))
       \<noteq> Fin (real_of_int 36028797018963976)"
proof -
  have pc: "pcFromPitch 36028797018963976 = 4" by (simp add: pcFromPitch_mod)
  have q: "round53 (real_of_int 36028797018963976 / 12) = 6004799503160663 / 2"
    by (subst round53_at [where k = 51]) (simp_all add: pow2_def round_even_def)
  have oct: "octFromPitch 36028797018963976 = 3002399751580331"
    unfolding octFromPitch_def Math_floor_def q by simp
  have r1: "round53 36028797018963972 = 36028797018963968"
    by (subst round53_at [where k = 55]) (simp_all add: pow2_def round_even_def)
  have "pitchFromPcOct (Fin 4) (Fin 3002399751580331) = Fin 36028797018963968"
    by (simp add: pitchFromPcOct_def to_double_def r1)
  then show ?thesis by (simp add: pc oct)
qed

section \<open>The triad builder\<close>

text \<open>
  Claim C5.  For a root pitch class in 0..11 and a quality that is major or minor,
  \<open>triadPcs\<close> returns the three elements root, third and fifth, where the third is
  \<open>(root + 4) mod 12\<close> for major and \<open>(root + 3) mod 12\<close> for minor, and the fifth is
  \<open>(root + 7) mod 12\<close>.
\<close>

theorem triadPcs_root_third_fifth:
  "0 \<le> r \<Longrightarrow> r \<le> 11 \<Longrightarrow> q = ''major'' \<or> q = ''minor'' \<Longrightarrow>
   length (triadPcs r q) = 3
   \<and> triadPcs r q = [r, (r + (if q = ''major'' then 4 else 3)) mod 12, (r + 7) mod 12]"
  by (simp add: triadPcs_def Let_def js_rem_nonneg)

theorem triadPcs_root_third_fifth_witness:
  "triadPcs 9 ''minor'' = [9, 0, 4] \<and> triadPcs 9 ''major'' = [9, 1, 4]"
  using triadPcs_root_third_fifth [of 9 "''minor''"] triadPcs_root_third_fifth [of 9 "''major''"]
  by simp

section \<open>The upward scan\<close>

lemma js_strict_neq_Fin: "js_strict_neq (Fin a) (Fin b) \<longleftrightarrow> a \<noteq> b"
  by (simp add: js_strict_neq_def)

lemma scan_up_step:
  assumes "pcFromPitch s \<noteq> want" "\<bar>s + 1\<bar> \<le> 2 ^ 53"
  shows "scan_up want (Fin (real_of_int s)) = scan_up want (Fin (real_of_int (s + 1)))"
proof -
  have a: "to_double (real_of_int s + 1) = Fin (real_of_int s + 1)"
    using to_double_int [OF assms(2)] by simp
  show ?thesis
    by (subst scan_up.simps) (simp add: pcFromPitch_num_int js_strict_neq_Fin assms(1) a)
qed

lemma scan_up_found:
  assumes "pcFromPitch s = want"
  shows "scan_up want (Fin (real_of_int s)) = Some (Fin (real_of_int s))"
  by (subst scan_up.simps) (simp add: pcFromPitch_num_int js_strict_neq_Fin assms)

lemma scan_up_hits:
  "pcFromPitch (s + int k) = want \<Longrightarrow> (\<forall>j<k. pcFromPitch (s + int j) \<noteq> want)
   \<Longrightarrow> 0 \<le> s \<Longrightarrow> s + int k \<le> 2 ^ 53
   \<Longrightarrow> scan_up want (Fin (real_of_int s)) = Some (Fin (real_of_int (s + int k)))"
proof (induction k arbitrary: s)
  case 0
  then show ?case by (simp add: scan_up_found)
next
  case (Suc k)
  from Suc.prems(2) have miss: "pcFromPitch s \<noteq> want"
    by (metis of_nat_0 add.right_neutral zero_less_Suc)
  have hit: "pcFromPitch (s + 1 + int k) = want"
    using Suc.prems(1) by (simp add: ac_simps)
  have rest: "\<forall>j<k. pcFromPitch (s + 1 + int j) \<noteq> want"
  proof (intro allI impI)
    fix j assume "j < k"
    then have "Suc j < Suc k" by simp
    with Suc.prems(2) have "pcFromPitch (s + int (Suc j)) \<noteq> want" by blast
    then show "pcFromPitch (s + 1 + int j) \<noteq> want" by (simp add: ac_simps)
  qed
  have b: "\<bar>s + 1\<bar> \<le> 2 ^ 53" using Suc.prems(3,4) by simp
  have "scan_up want (Fin (real_of_int s)) = scan_up want (Fin (real_of_int (s + 1)))"
    using miss b by (rule scan_up_step)
  also have "\<dots> = Some (Fin (real_of_int (s + 1 + int k)))"
    using hit rest Suc.prems(3,4) by (intro Suc.IH) simp_all
  finally show ?case by (simp add: ac_simps)
qed

lemma scan_up_closed:
  assumes "0 \<le> want" "want < 12" "0 \<le> s" "s + 11 \<le> 2 ^ 53"
  shows "scan_up want (Fin (real_of_int s)) = Some (Fin (real_of_int (s + (want - s) mod 12)))"
proof -
  define k where "k = nat ((want - s) mod 12)"
  have k: "int k = (want - s) mod 12" by (simp add: k_def)
  have k11: "int k \<le> 11" unfolding k using pos_mod_bound [of 12 "want - s"] by simp
  have hit: "pcFromPitch (s + int k) = want"
    using assms(1,2) unfolding k pcFromPitch_mod by (simp add: mod_add_right_eq)
  have miss: "\<forall>j<k. pcFromPitch (s + int j) \<noteq> want"
  proof (intro allI impI notI)
    fix j assume j: "j < k" and eq: "pcFromPitch (s + int j) = want"
    have "int j < 12" using j k11 by simp
    from eq have "(want - s) mod 12 = int j mod 12"
      unfolding pcFromPitch_mod by (metis add_diff_cancel_left' mod_diff_left_eq)
    then have "(want - s) mod 12 = int j" using \<open>int j < 12\<close> by simp
    with j k show False by simp
  qed
  have "s + int k \<le> 2 ^ 53" using assms(4) k11 by simp
  from scan_up_hits [OF hit miss assms(3) this] show ?thesis by (simp add: k)
qed

lemma scan_up_never:
  assumes neq: "js_strict_neq (pcFromPitch_num p0) (Fin (real_of_int w))"
    and stay: "js_add p0 (Fin 1) = p0"
    and returns: "scan_up want p = Some r"
  shows "\<not> (want = w \<and> p = p0)"
  using returns
proof (induction want p r rule: scan_up.raw_induct [rotated 1, consumes 1, case_names step])
  case (step scan want p r)
  note ih = step(1) and body = step(2)
  show ?case
  proof
    assume e: "want = w \<and> p = p0"
    with body neq stay have "scan w p0 = Some r" by simp
    with ih show False by blast
  qed
qed

lemma scan_up_stuck:
  assumes "js_strict_neq (pcFromPitch_num p0) (Fin (real_of_int w))"
    and "js_add p0 (Fin 1) = p0"
  shows "scan_up w p0 = None"
proof (cases "scan_up w p0")
  case None
  then show ?thesis .
next
  case (Some r)
  from scan_up_never [OF assms this] show ?thesis by simp
qed

lemma want_mod: "js_rem (js_rem pc 12 + 12) 12 = pc mod 12"
  using pcFromPitch_mod [of pc] by (simp add: pcFromPitch_def)

lemma nextPitchAtOrAbove_int:
  assumes "m + 11 \<le> 2 ^ 53"
  shows "nextPitchAtOrAbove pc (Fin (real_of_int m))
         = Some (Fin (real_of_int (next_at pc (max 0 m))))"
proof -
  have big: "(11::int) \<le> 2 ^ 53" by simp
  have "scan_up (pc mod 12) (Fin (real_of_int (max 0 m)))
        = Some (Fin (real_of_int (max 0 m + (pc mod 12 - max 0 m) mod 12)))"
    by (rule scan_up_closed) (use assms big in simp_all)
  moreover have "js_max (Fin 0) (js_floor (Fin (real_of_int m))) = Fin (real_of_int (max 0 m))"
    by (simp add: max_def)
  ultimately show ?thesis
    by (simp add: nextPitchAtOrAbove_def Let_def want_mod next_at_def mod_diff_left_eq)
qed

lemma nextPitchAtOrAbove_closed:
  assumes "\<lfloor>x\<rfloor> + 11 \<le> 2 ^ 53"
  shows "nextPitchAtOrAbove pc (Fin x) = Some (Fin (real_of_int (next_at pc (max 0 \<lfloor>x\<rfloor>))))"
proof -
  have "js_floor (Fin x) = js_floor (Fin (real_of_int \<lfloor>x\<rfloor>))" by simp
  then have "nextPitchAtOrAbove pc (Fin x) = nextPitchAtOrAbove pc (Fin (real_of_int \<lfloor>x\<rfloor>))"
    by (simp add: nextPitchAtOrAbove_def)
  then show ?thesis using nextPitchAtOrAbove_int [OF assms] by simp
qed

lemma nextPitchAtOrAbove_NegInf:
  "nextPitchAtOrAbove pc NegInf = Some (Fin (real_of_int (next_at pc 0)))"
proof -
  have "nextPitchAtOrAbove pc NegInf = nextPitchAtOrAbove pc (Fin (real_of_int 0))"
    by (simp add: nextPitchAtOrAbove_def)
  then show ?thesis using nextPitchAtOrAbove_int [of 0 pc] by simp
qed

lemma next_at_props:
  "b \<le> next_at pc b \<and> next_at pc b < b + 12 \<and> pcFromPitch (next_at pc b) = pc mod 12"
  by (simp add: next_at_def pcFromPitch_mod mod_add_right_eq)

lemma next_at_least:
  assumes "b \<le> q" "pcFromPitch q = pc mod 12"
  shows "next_at pc b \<le> q"
proof -
  have "(q - b) mod 12 = (pc - b) mod 12"
    using assms(2) unfolding pcFromPitch_mod by (metis mod_diff_left_eq)
  moreover have "(q - b) mod 12 \<le> q - b"
    using assms(1) by (simp add: zmod_le_nonneg_dividend)
  ultimately show ?thesis by (simp add: next_at_def)
qed

text \<open>
  Claim C10, amended.  For every integer \<open>pc\<close> and every finite \<open>minPitch\<close> whose floor
  is at most \<open>2 ^ 53 - 11\<close>, so that the scan stays among the integers that the doubles
  of the script hold, the scan of \<open>nextPitchAtOrAbove\<close> returns.  Its result \<open>p\<close> is at
  or above the floor \<open>max 0 (floor minPitch)\<close>, below that floor plus 12, has the pitch
  class \<open>((pc % 12) + 12) % 12\<close>, and no pitch at or above the floor with that pitch
  class is smaller.  A negative \<open>minPitch\<close>, minus infinity included, is clamped, so the
  scan starts at pitch 0 and returns the wanted pitch class itself.
\<close>

theorem nextPitchAtOrAbove_least:
  "(\<lfloor>minPitch\<rfloor> + 11 \<le> 2 ^ 53 \<longrightarrow>
     (\<exists>p. nextPitchAtOrAbove pc (Fin minPitch) = Some (Fin (real_of_int p))
       \<and> max 0 \<lfloor>minPitch\<rfloor> \<le> p
       \<and> p < max 0 \<lfloor>minPitch\<rfloor> + 12
       \<and> pcFromPitch p = js_rem (js_rem pc 12 + 12) 12
       \<and> (\<forall>q. max 0 \<lfloor>minPitch\<rfloor> \<le> q \<and> pcFromPitch q = js_rem (js_rem pc 12 + 12) 12
              \<longrightarrow> p \<le> q)
       \<and> (minPitch < 0 \<longrightarrow> p = js_rem (js_rem pc 12 + 12) 12)))
   \<and> nextPitchAtOrAbove pc NegInf
       = Some (Fin (real_of_int (js_rem (js_rem pc 12 + 12) 12)))"
proof -
  let ?b = "max 0 \<lfloor>minPitch\<rfloor>"
  have neg: "minPitch < 0 \<Longrightarrow> next_at pc ?b = pc mod 12"
  proof -
    assume "minPitch < 0"
    then have "\<lfloor>minPitch\<rfloor> < 0" by linarith
    then have "?b = 0" by simp
    then show ?thesis by (simp add: next_at_def)
  qed
  have main: "\<exists>p. nextPitchAtOrAbove pc (Fin minPitch) = Some (Fin (real_of_int p))
       \<and> ?b \<le> p \<and> p < ?b + 12
       \<and> pcFromPitch p = js_rem (js_rem pc 12 + 12) 12
       \<and> (\<forall>q. ?b \<le> q \<and> pcFromPitch q = js_rem (js_rem pc 12 + 12) 12 \<longrightarrow> p \<le> q)
       \<and> (minPitch < 0 \<longrightarrow> p = js_rem (js_rem pc 12 + 12) 12)"
    if bound: "\<lfloor>minPitch\<rfloor> + 11 \<le> 2 ^ 53"
  proof -
    have "nextPitchAtOrAbove pc (Fin minPitch) = Some (Fin (real_of_int (next_at pc ?b)))"
      using bound by (rule nextPitchAtOrAbove_closed)
    moreover have "?b \<le> next_at pc ?b" "next_at pc ?b < ?b + 12"
      "pcFromPitch (next_at pc ?b) = js_rem (js_rem pc 12 + 12) 12"
      using next_at_props [of ?b pc] by (simp_all add: want_mod)
    moreover have "\<forall>q. ?b \<le> q \<and> pcFromPitch q = js_rem (js_rem pc 12 + 12) 12
                    \<longrightarrow> next_at pc ?b \<le> q"
      by (simp add: want_mod next_at_least)
    moreover have "minPitch < 0 \<longrightarrow> next_at pc ?b = js_rem (js_rem pc 12 + 12) 12"
      using neg by (simp add: want_mod)
    ultimately show ?thesis by blast
  qed
  have "nextPitchAtOrAbove pc NegInf = Some (Fin (real_of_int (js_rem (js_rem pc 12 + 12) 12)))"
    by (simp add: nextPitchAtOrAbove_NegInf want_mod next_at_def)
  with main show ?thesis by blast
qed

theorem nextPitchAtOrAbove_least_witness:
  "\<lfloor>- 5 / 2 :: real\<rfloor> + 11 \<le> 2 ^ 53
   \<and> (- 5 / 2 :: real) < 0 \<and> max 0 \<lfloor>- 5 / 2 :: real\<rfloor> \<le> (16 :: int)
   \<and> pcFromPitch 16 = js_rem (js_rem (- 8) 12 + 12) 12
   \<and> nextPitchAtOrAbove (- 8) (Fin (- 5 / 2)) = Some (Fin 4)"
proof -
  have bound: "\<lfloor>- 5 / 2 :: real\<rfloor> + 11 \<le> 2 ^ 53" by simp
  from nextPitchAtOrAbove_least [of "- 5 / 2" "- 8"] bound
  obtain p where ret: "nextPitchAtOrAbove (- 8) (Fin (- 5 / 2)) = Some (Fin (real_of_int p))"
    and least: "\<forall>q. max 0 \<lfloor>- 5 / 2 :: real\<rfloor> \<le> q
                  \<and> pcFromPitch q = js_rem (js_rem (- 8) 12 + 12) 12 \<longrightarrow> p \<le> q"
    and neg: "(- 5 / 2 :: real) < 0 \<longrightarrow> p = js_rem (js_rem (- 8) 12 + 12) 12"
    by blast
  have w: "js_rem (js_rem (- 8) 12 + 12) 12 = 4" by (simp add: js_rem_def)
  have q: "max 0 \<lfloor>- 5 / 2 :: real\<rfloor> \<le> (16 :: int)" "pcFromPitch 16 = 4"
    by (simp_all add: pcFromPitch_def js_rem_def)
  from least q w have "p \<le> 16" by simp
  from neg w have "p = 4" by simp
  with ret q w bound show ?thesis by simp
qed

text \<open>
  Claim C10 as stated, for every \<open>minPitch\<close>, fails on the doubles of the script.  At
  \<open>minPitch = 2 ^ 53\<close> the scan for pitch class 0 starts at \<open>2 ^ 53\<close>, whose pitch class
  is 8, and \<open>p += 1\<close> rounds back to \<open>2 ^ 53\<close>: the loop never leaves.  It never leaves
  for \<open>NaN\<close> either.
\<close>

theorem nextPitchAtOrAbove_least_counterexample:
  "nextPitchAtOrAbove 0 (Fin 9007199254740992) = None
   \<and> nextPitchAtOrAbove 0 NaN = None"
proof -
  have r: "round53 9007199254740993 = 9007199254740992"
    by (subst round53_at [where k = 53]) (simp_all add: pow2_def round_even_def)
  have stay: "to_double 9007199254740993 = Fin 9007199254740992"
    by (simp add: to_double_def r)
  have "pcFromPitch_num (Fin (real_of_int 9007199254740992))
        = Fin (real_of_int (pcFromPitch 9007199254740992))"
    by (rule pcFromPitch_num_int)
  then have pc: "pcFromPitch_num (Fin 9007199254740992) = Fin 8"
    by (simp add: pcFromPitch_mod)
  have "scan_up 0 (Fin 9007199254740992) = None"
    by (rule scan_up_stuck) (simp_all add: pc stay js_strict_neq_def)
  moreover have "scan_up 0 NaN = None"
    by (rule scan_up_stuck) (simp_all add: js_strict_neq_def pcFromPitch_num_def)
  ultimately show ?thesis
    by (simp add: nextPitchAtOrAbove_def js_rem_def)
qed

section \<open>The reconstructed voicing\<close>

lemma next_at_above: "x < next_at pc (max 0 (x + 1))"
  using next_at_props [of "max 0 (x + 1)" pc] by linarith

lemma next_after:
  assumes "- (2 ^ 53) \<le> f + 1" "f + 12 \<le> 2 ^ 53"
  shows "nextPitchAtOrAbove v (js_add (Fin (real_of_int f)) (Fin 1))
         = Some (Fin (real_of_int (next_at v (max 0 (f + 1)))))"
proof -
  have "\<bar>f + 1\<bar> \<le> 2 ^ 53" using assms by simp
  from to_double_int [OF this]
  have "js_add (Fin (real_of_int f)) (Fin 1) = Fin (real_of_int (f + 1))" by simp
  moreover have "f + 1 + 11 \<le> 2 ^ 53" using assms(2) by simp
  ultimately show ?thesis using nextPitchAtOrAbove_int [of "f + 1" v] by simp
qed

lemma answered_int_sorted: "sorted_wrt (<) (answered_int pcs k)"
proof -
  have lt2: "\<And>x pc pc'. x < next_at pc' (max 0 (next_at pc (max 0 (x + 1)) + 1))"
    using next_at_above by (meson less_trans)
  show ?thesis
    by (cases "js_at_nullable pcs 0"; cases "js_at_nullable pcs 1";
        cases "js_at_nullable pcs 2")
       (simp_all add: answered_int_def Let_def next_at_above lt2)
qed

lemma answered_int_nonempty:
  "js_at_nullable pcs 0 \<noteq> None \<or> js_at_nullable pcs 1 \<noteq> None \<or> js_at_nullable pcs 2 \<noteq> None
   \<Longrightarrow> answered_int pcs k \<noteq> []"
  by (auto simp: answered_int_def Let_def)

lemma answered_safe:
  assumes K: "12 * \<bar>k\<bar> + 35 \<le> 2 ^ 53"
    and slots: "\<forall>v. Some v \<in> set pcs \<longrightarrow> 0 \<le> v \<and> v \<le> 11"
  shows "answeredRootPositionPitches pcs (Fin (real_of_int k))
         = Some (map (\<lambda>q. Fin (real_of_int q)) (answered_int pcs k))"
proof -
  let ?p0 = "js_at_nullable pcs 0"
  let ?p1 = "js_at_nullable pcs 1"
  let ?p2 = "js_at_nullable pcs 2"
  have slot: "0 \<le> v \<and> v \<le> 11" if "js_at_nullable pcs i = Some v" for i v
  proof -
    from that have "Some v \<in> set pcs"
      by (auto simp: js_at_nullable_def js_at_def split: if_splits) (metis nth_mem)
    with slots show ?thesis by blast
  qed
  define f where "f = (case ?p0 of None \<Rightarrow> next_at 0 (max 0 (k * 12)) | Some v \<Rightarrow> k * 12 + v)"
  have fb: "- (12 * \<bar>k\<bar>) \<le> f \<and> f \<le> 12 * \<bar>k\<bar> + 11"
  proof (cases ?p0)
    case None
    with next_at_props [of "max 0 (k * 12)" 0] show ?thesis by (simp add: f_def) linarith
  next
    case (Some v)
    with slot [OF Some] show ?thesis by (simp add: f_def) linarith
  qed
  have E1s: "pitchFromPcOct (Fin (real_of_int v)) (Fin (real_of_int k)) = Fin (real_of_int f)"
    if "?p0 = Some v" for v
  proof -
    have "\<bar>k\<bar> * 12 \<le> 2 ^ 54" using K by simp
    moreover have "\<bar>k * 12 + v\<bar> \<le> 2 ^ 53" using K slot [OF that] by linarith
    ultimately show ?thesis unfolding f_def that by (simp add: pitchFromPcOct_int)
  qed
  have E1n: "nextPitchAtOrAbove 0 (pitchFromPcOct (Fin 0) (Fin (real_of_int k)))
             = Some (Fin (real_of_int f))" if "?p0 = None"
  proof -
    have "\<bar>k\<bar> * 12 \<le> 2 ^ 54" "\<bar>k * 12 + 0\<bar> \<le> 2 ^ 53" using K by simp_all
    from pitchFromPcOct_int [OF this]
    have "pitchFromPcOct (Fin 0) (Fin (real_of_int k)) = Fin (real_of_int (k * 12))" by simp
    moreover have "k * 12 + 11 \<le> 2 ^ 53" using K by linarith
    ultimately show ?thesis unfolding f_def that
      using nextPitchAtOrAbove_int [of "k * 12" 0] by simp
  qed
  define t where "t = (case ?p1 of None \<Rightarrow> f | Some v \<Rightarrow> next_at v (max 0 (f + 1)))"
  have tb: "- (12 * \<bar>k\<bar>) \<le> t \<and> t \<le> 12 * \<bar>k\<bar> + 23"
  proof (cases ?p1)
    case None
    with fb show ?thesis by (simp add: t_def)
  next
    case (Some v)
    with fb next_at_props [of "max 0 (f + 1)" v] show ?thesis by (simp add: t_def) linarith
  qed
  have E2: "nextPitchAtOrAbove v (js_add (Fin (real_of_int f)) (Fin 1))
            = Some (Fin (real_of_int (next_at v (max 0 (f + 1)))))" for v
    by (rule next_after) (use fb K in linarith)+
  have E3: "nextPitchAtOrAbove v (js_add (Fin (real_of_int t)) (Fin 1))
            = Some (Fin (real_of_int (next_at v (max 0 (t + 1)))))" for v
    by (rule next_after) (use tb K in linarith)+
  have E3s: "nextPitchAtOrAbove v (js_add (Fin (real_of_int (next_at b (max 0 (f + 1))))) (Fin 1))
            = Some (Fin (real_of_int (next_at v (max 0 (next_at b (max 0 (f + 1)) + 1)))))"
    if "?p1 = Some b" for b v
    using E3 [of v] unfolding t_def that by simp
  have R: "answered_int pcs k =
     (if ?p0 = None \<and> ?p1 = None \<and> ?p2 = None then []
      else f # (case ?p1 of None \<Rightarrow> [] | Some v \<Rightarrow> [next_at v (max 0 (f + 1))])
             @ (case ?p2 of None \<Rightarrow> []
                | Some v \<Rightarrow> [next_at v (max 0 ((case ?p1 of None \<Rightarrow> f
                                                  | Some b \<Rightarrow> next_at b (max 0 (f + 1))) + 1))]))"
    by (simp add: answered_int_def Let_def f_def split: option.splits)
  show ?thesis
    unfolding R answeredRootPositionPitches_def Let_def
    by (cases ?p0; cases ?p1; cases ?p2)
       (simp_all add: E1s E1n E2 E3s del: js_add.simps of_int_add)
qed

lemma sorted_js_lt_int:
  "sorted_wrt (<) qs \<Longrightarrow> sorted_wrt js_lt (map (\<lambda>q. Fin (real_of_int q)) qs)"
  by (simp add: sorted_wrt_map)

text \<open>
  Claim C7, amended.  For every integer octave \<open>rootOct\<close> with
  \<open>12 * |rootOct| + 35 \<le> 2 ^ 53\<close>, so that every pitch of the voicing is an integer that
  the doubles of the script hold, and every \<open>userPcs\<close> whose present slots are pitch
  classes in 0..11, \<open>answeredRootPositionPitches\<close> returns a strictly increasing sequence
  of integer pitches, which is not empty when a slot is present.  For
  \<open>userPcs = [0, 4, 7]\<close> at octave 4 it is
  \<open>[pitchFromPcOct(0, 4), pitchFromPcOct(4, 4), pitchFromPcOct(7, 4)]\<close>, that is
  48, 52, 55.
\<close>

theorem answered_strictly_ascending:
  "(12 * \<bar>k\<bar> + 35 \<le> 2 ^ 53 \<and> (\<forall>v. Some v \<in> set pcs \<longrightarrow> 0 \<le> v \<and> v \<le> 11) \<longrightarrow>
     (\<exists>ps. answeredRootPositionPitches pcs (Fin (real_of_int k)) = Some ps
         \<and> sorted_wrt js_lt ps
         \<and> (\<exists>qs. ps = map (\<lambda>q. Fin (real_of_int q)) qs)
         \<and> (js_at_nullable pcs 0 \<noteq> None \<or> js_at_nullable pcs 1 \<noteq> None
              \<or> js_at_nullable pcs 2 \<noteq> None \<longrightarrow> ps \<noteq> [])))
   \<and> answeredRootPositionPitches [Some 0, Some 4, Some 7] (Fin 4)
       = Some [pitchFromPcOct (Fin 0) (Fin 4), pitchFromPcOct (Fin 4) (Fin 4),
               pitchFromPcOct (Fin 7) (Fin 4)]
   \<and> [pitchFromPcOct (Fin 0) (Fin 4), pitchFromPcOct (Fin 4) (Fin 4),
        pitchFromPcOct (Fin 7) (Fin 4)] = [Fin 48, Fin 52, Fin 55]"
proof -
  have gen: "\<exists>ps. answeredRootPositionPitches pcs (Fin (real_of_int k)) = Some ps
         \<and> sorted_wrt js_lt ps
         \<and> (\<exists>qs. ps = map (\<lambda>q. Fin (real_of_int q)) qs)
         \<and> (js_at_nullable pcs 0 \<noteq> None \<or> js_at_nullable pcs 1 \<noteq> None
              \<or> js_at_nullable pcs 2 \<noteq> None \<longrightarrow> ps \<noteq> [])"
    if K: "12 * \<bar>k\<bar> + 35 \<le> 2 ^ 53" and slots: "\<forall>v. Some v \<in> set pcs \<longrightarrow> 0 \<le> v \<and> v \<le> 11"
  proof -
    let ?qs = "answered_int pcs k"
    let ?ps = "map (\<lambda>q. Fin (real_of_int q)) ?qs"
    have "answeredRootPositionPitches pcs (Fin (real_of_int k)) = Some ?ps"
      using K slots by (rule answered_safe)
    moreover have "sorted_wrt js_lt ?ps"
      using answered_int_sorted by (rule sorted_js_lt_int)
    moreover have "js_at_nullable pcs 0 \<noteq> None \<or> js_at_nullable pcs 1 \<noteq> None
              \<or> js_at_nullable pcs 2 \<noteq> None \<longrightarrow> ?ps \<noteq> []"
      using answered_int_nonempty [of pcs k] by simp
    ultimately show ?thesis by blast
  qed
  have p: "pitchFromPcOct (Fin 0) (Fin 4) = Fin 48" "pitchFromPcOct (Fin 4) (Fin 4) = Fin 52"
    "pitchFromPcOct (Fin 7) (Fin 4) = Fin 55"
    using pitchFromPcOct_int [of 4 0] pitchFromPcOct_int [of 4 4] pitchFromPcOct_int [of 4 7]
    by simp_all
  have "answeredRootPositionPitches [Some 0, Some 4, Some 7] (Fin (real_of_int 4))
        = Some (map (\<lambda>q. Fin (real_of_int q)) (answered_int [Some 0, Some 4, Some 7] 4))"
    by (rule answered_safe) simp_all
  then have c: "answeredRootPositionPitches [Some 0, Some 4, Some 7] (Fin 4)
        = Some [Fin 48, Fin 52, Fin 55]"
    by (simp add: answered_int_def Let_def js_at_nullable_def js_at_def next_at_def)
  from gen c p show ?thesis by simp
qed

theorem answered_strictly_ascending_witness:
  "12 * \<bar>4 :: int\<bar> + 35 \<le> 2 ^ 53
   \<and> js_at_nullable [Some 7, Some 4, Some (0::int)] 0 \<noteq> None
   \<and> answeredRootPositionPitches [Some 7, Some 4, Some 0] (Fin 4) = Some [Fin 55, Fin 64, Fin 72]
   \<and> sorted_wrt js_lt [Fin 55, Fin 64, Fin 72]"
proof -
  have K: "12 * \<bar>4 :: int\<bar> + 35 \<le> 2 ^ 53" by simp
  have slots: "\<forall>v. Some v \<in> set [Some 7, Some 4, Some (0::int)] \<longrightarrow> 0 \<le> v \<and> v \<le> 11"
    by auto
  from answered_strictly_ascending [of 4 "[Some 7, Some 4, Some 0]"] K slots
  obtain ps where ps: "answeredRootPositionPitches [Some 7, Some 4, Some 0] (Fin (real_of_int 4))
                       = Some ps"
    and asc: "sorted_wrt js_lt ps"
    and ne: "js_at_nullable [Some 7, Some 4, Some (0::int)] 0 \<noteq> None \<or>
             js_at_nullable [Some 7, Some 4, Some (0::int)] 1 \<noteq> None \<or>
             js_at_nullable [Some 7, Some 4, Some (0::int)] 2 \<noteq> None \<longrightarrow> ps \<noteq> []"
    by blast
  have present: "js_at_nullable [Some 7, Some 4, Some (0::int)] 0 \<noteq> None"
    by (simp add: js_at_nullable_def js_at_def)
  with ne have "ps \<noteq> []" by blast
  have "answeredRootPositionPitches [Some 7, Some 4, Some 0] (Fin (real_of_int 4))
        = Some (map (\<lambda>q. Fin (real_of_int q)) (answered_int [Some 7, Some 4, Some 0] 4))"
    using K slots by (rule answered_safe)
  then have "answeredRootPositionPitches [Some 7, Some 4, Some 0] (Fin 4)
        = Some [Fin 55, Fin 64, Fin 72]"
    by (simp add: answered_int_def Let_def js_at_nullable_def js_at_def next_at_def)
  with ps asc present K show ?thesis by simp
qed

text \<open>
  Claim C7 as stated, for every \<open>rootOct\<close>, fails on the doubles of the script.  At
  octave 750599937895083 the root of \<open>userPcs = [0, 0, 0]\<close> is the pitch
  9007199254740996, above \<open>2 ^ 53\<close>, where \<open>first + 1\<close> rounds back to \<open>first\<close>: the
  scans for the third and the fifth start and end at the root, and the three returned
  pitches are equal.
\<close>

theorem answered_strictly_ascending_counterexample:
  "answeredRootPositionPitches [Some 0, Some 0, Some 0] (Fin 750599937895083)
     = Some [Fin 9007199254740996, Fin 9007199254740996, Fin 9007199254740996]
   \<and> \<not> sorted_wrt js_lt [Fin 9007199254740996, Fin 9007199254740996, Fin 9007199254740996]"
proof -
  have e: "round53 (real_of_int 9007199254740996) = real_of_int 9007199254740996"
    by (rule round53_exact_even) simp_all
  then have d: "to_double 9007199254740996 = Fin 9007199254740996"
    by (simp add: to_double_def)
  have root: "pitchFromPcOct (Fin 0) (Fin 750599937895083) = Fin 9007199254740996"
    by (simp add: pitchFromPcOct_def d)
  have r: "round53 9007199254740997 = 9007199254740996"
    by (subst round53_at [where k = 53]) (simp_all add: pow2_def round_even_def)
  have up: "js_add (Fin 9007199254740996) (Fin 1) = Fin 9007199254740996"
    by (simp add: to_double_def r)
  have "scan_up 0 (Fin (real_of_int 9007199254740996)) = Some (Fin (real_of_int 9007199254740996))"
    by (rule scan_up_found) (simp add: pcFromPitch_mod)
  then have nx: "nextPitchAtOrAbove 0 (Fin 9007199254740996) = Some (Fin 9007199254740996)"
    by (simp add: nextPitchAtOrAbove_def js_rem_def)
  have "answeredRootPositionPitches [Some 0, Some 0, Some 0] (Fin 750599937895083)
     = Some [Fin 9007199254740996, Fin 9007199254740996, Fin 9007199254740996]"
    unfolding answeredRootPositionPitches_def Let_def
    by (simp add: js_at_nullable_def js_at_def root up nx del: js_add.simps)
  then show ?thesis by simp
qed

text \<open>
  Claim C1.  The claim says that only the pitches of the present slots are returned, so
  that \<open>userPcs = [null, 4, 7]\<close> at octave 4 gives two pitches, both above
  \<open>pitchFromPcOct(0, 4)\<close>.  The script puts \<open>first\<close> into the array it filters, and
  \<open>first\<close> is never \<open>null\<close>: with slot 0 absent it is the scan floor.  Evaluated on that
  input the function returns three pitches, the first of them \<open>pitchFromPcOct(0, 4)\<close>
  itself.
\<close>

theorem answered_root_absent_returns_floor:
  "answeredRootPositionPitches [None, Some 4, Some 7] (Fin 4) = Some [Fin 48, Fin 52, Fin 55]
   \<and> pitchFromPcOct (Fin 0) (Fin 4) = Fin 48"
proof -
  have "answeredRootPositionPitches [None, Some 4, Some 7] (Fin (real_of_int 4))
        = Some (map (\<lambda>q. Fin (real_of_int q)) (answered_int [None, Some 4, Some 7] 4))"
    by (rule answered_safe) simp_all
  then have "answeredRootPositionPitches [None, Some 4, Some 7] (Fin 4)
        = Some [Fin 48, Fin 52, Fin 55]"
    by (simp add: answered_int_def Let_def js_at_nullable_def js_at_def next_at_def)
  moreover have "pitchFromPcOct (Fin 0) (Fin 4) = Fin 48"
    using pitchFromPcOct_int [of 4 0] by simp
  ultimately show ?thesis by simp
qed

section \<open>The question-count clamp\<close>

lemma Math_round_nearest: "\<bar>real_of_int (Math_round v) - v\<bar> \<le> 1 / 2"
  unfolding Math_round_def by linarith

text \<open>
  Claim C6.  \<open>clampQuestions\<close> maps every number to an integer from 1 to 30: a value that
  is not finite gives 18; a finite one is rounded to the nearest integer (at most one
  half away) and then clamped, so 0 and every negative count give 1 and 100 gives 30.
\<close>

theorem clampQuestions_range:
  "1 \<le> clampQuestions n \<and> clampQuestions n \<le> 30
   \<and> clampQuestions NaN = 18 \<and> clampQuestions PosInf = 18 \<and> clampQuestions NegInf = 18
   \<and> clampQuestions (Fin v) = min 30 (max 1 (Math_round v))
   \<and> \<bar>real_of_int (Math_round v) - v\<bar> \<le> 1 / 2
   \<and> (v \<le> 0 \<longrightarrow> clampQuestions (Fin v) = 1)
   \<and> clampQuestions (Fin 0) = 1
   \<and> clampQuestions (Fin 100) = 30"
proof -
  have range: "1 \<le> clampQuestions n \<and> clampQuestions n \<le> 30"
    by (cases n) (simp_all add: clampQuestions_def)
  have neg: "v \<le> 0 \<longrightarrow> clampQuestions (Fin v) = 1"
  proof
    assume "v \<le> 0"
    then have "Math_round v \<le> 0" unfolding Math_round_def by linarith
    then show "clampQuestions (Fin v) = 1" by (simp add: clampQuestions_def)
  qed
  have ex: "clampQuestions (Fin 0) = 1" "clampQuestions (Fin 100) = 30"
    by (simp_all add: clampQuestions_def Math_round_def)
  have nonfin: "clampQuestions NaN = 18 \<and> clampQuestions PosInf = 18 \<and> clampQuestions NegInf = 18"
    by (simp add: clampQuestions_def)
  have fin: "clampQuestions (Fin v) = min 30 (max 1 (Math_round v))"
    by (simp add: clampQuestions_def)
  from range nonfin fin neg ex Math_round_nearest [of v] show ?thesis
    by blast
qed

theorem clampQuestions_range_witness:
  "(- 7 / 2 :: real) \<le> 0 \<and> clampQuestions (Fin (- 7 / 2)) = 1 \<and> Math_round (- 7 / 2) = - 3"
proof -
  have h: "(- 7 / 2 :: real) \<le> 0" by simp
  have "clampQuestions (Fin (- 7 / 2)) = 1"
    using clampQuestions_range [of "Fin (- 7 / 2)" "- 7 / 2"] h by blast
  moreover have "Math_round (- 7 / 2) = - 3" by (simp add: Math_round_def)
  ultimately show ?thesis using h by simp
qed


section \<open>Marking\<close>

lemma slot_correct_iff:
  "slot_correct user correct i \<longleftrightarrow>
     i < length user \<and> i < length correct \<and> user ! i = Some (correct ! i)"
  by (auto simp: slot_correct_def js_at_nullable_def js_at_def split: option.splits)

lemma question_marks_sum:
  "question_marks user correct =
     (if slot_correct user correct 0 then 1 else 0)
     + (if slot_correct user correct 1 then 1 else 0)
     + (if slot_correct user correct 2 then 1 else 0)"
proof -
  have "[0..<3] = [0, 1, 2]" by (simp add: upt_rec)
  then show ?thesis by (simp add: question_marks_def)
qed

lemma question_marks_range: "0 \<le> question_marks user correct \<and> question_marks user correct \<le> 3"
  by (simp add: question_marks_sum)

lemma mark_loop_eq:
  "mark_loop qs tot =
     (map (\<lambda>q. q\<lparr>marks := question_marks (userPcs q) (correctPcs q)\<rparr>) qs,
      tot + sum_list (map (\<lambda>q. question_marks (userPcs q) (correctPcs q)) qs))"
  by (induction qs arbitrary: tot) (simp_all add: Let_def)

lemma sum_marks_le:
  "sum_list (map (\<lambda>q. question_marks (userPcs q) (correctPcs q)) qs) \<le> 3 * int (length qs)
   \<and> 0 \<le> sum_list (map (\<lambda>q. question_marks (userPcs q) (correctPcs q)) qs)"
proof (induction qs)
  case Nil
  then show ?case by simp
next
  case (Cons q qs)
  with question_marks_range [of "userPcs q" "correctPcs q"] show ?case by simp
qed

section \<open>The submit handler\<close>

lemma submit_click_noop:
  "\<not> started (state pg) \<or> submitted (state pg) \<Longrightarrow> submit_click pg = pg"
  by (simp add: submit_click_def)

lemma submitted_markAll: "submitted (state (markAll pg))"
  by (simp add: markAll_def Let_def split: prod.splits)

lemma submit_click_idem: "submit_click (submit_click pg) = submit_click pg"
proof (cases "\<not> started (state pg) \<or> submitted (state pg)")
  case True
  then show ?thesis by (simp add: submit_click_noop)
next
  case False
  then have "submit_click pg = markAll pg" by (simp add: submit_click_def validateBeforeSubmit_def)
  then show ?thesis using submitted_markAll [of pg] by (simp add: submit_click_noop)
qed

lemma submit_click_funpow: "(submit_click ^^ Suc n) pg = submit_click pg"
  by (induction n) (simp_all add: submit_click_idem)


lemma markAll_questions:
  "questions (state (markAll pg))
   = map (\<lambda>q. q\<lparr>marks := question_marks (userPcs q) (correctPcs q)\<rparr>) (questions (state pg))"
  by (simp add: markAll_def Let_def mark_loop_eq)

lemma marks_after:
  "map marks (map (\<lambda>q. q\<lparr>marks := question_marks (userPcs q) (correctPcs q)\<rparr>) qs)
   = map (\<lambda>q. question_marks (userPcs q) (correctPcs q)) qs"
  by simp

lemma markAll_summary:
  "resultsSummary (markAll pg)
   = Some (sum_list (map marks (questions (state (markAll pg)))),
           3 * int (length (questions (state pg))),
           percentage (sum_list (map marks (questions (state (markAll pg)))))
                      (3 * int (length (questions (state pg)))))"
  unfolding markAll_questions marks_after
  by (simp add: markAll_def Let_def mark_loop_eq mult.commute)

text \<open>
  Claim C2.  \<open>markAll\<close> gives slot \<open>i\<close> of a question one mark exactly when
  \<open>userPcs[i]\<close> is present and equal to \<open>correctPcs[i]\<close>: the marks of a question are the
  number of such slots, between 0 and 3; an answer equal to the correct triple scores 3,
  an all-absent one 0, and two correct pitch classes entered in each other's slot earn
  nothing for those slots.  Every question gets its marks, the total printed is their
  sum, the maximum is three times the number of questions, and the percentage is
  \<open>Math.round(total / max * 1000) / 10\<close>.
\<close>

theorem markAll_scoring:
  "(slot_correct user correct i \<longleftrightarrow>
      i < length user \<and> i < length correct \<and> user ! i = Some (correct ! i))
   \<and> question_marks user correct
       = (if slot_correct user correct 0 then 1 else 0)
         + (if slot_correct user correct 1 then 1 else 0)
         + (if slot_correct user correct 2 then 1 else 0)
   \<and> 0 \<le> question_marks user correct \<and> question_marks user correct \<le> 3
   \<and> question_marks [Some a, Some b, Some c] [a, b, c] = 3
   \<and> question_marks [None, None, None] correct = 0
   \<and> (a \<noteq> b \<longrightarrow> question_marks [Some b, Some a, Some c] [a, b, c] = 1)
   \<and> questions (state (markAll pg))
       = map (\<lambda>q. q\<lparr>marks := question_marks (userPcs q) (correctPcs q)\<rparr>)
           (questions (state pg))
   \<and> resultsSummary (markAll pg)
       = Some (sum_list (map marks (questions (state (markAll pg)))),
               3 * int (length (questions (state pg))),
               percentage (sum_list (map marks (questions (state (markAll pg)))))
                          (3 * int (length (questions (state pg)))))
   \<and> sum_list (map marks (questions (state (markAll pg))))
       \<le> 3 * int (length (questions (state pg)))
   \<and> (mx \<noteq> 0 \<longrightarrow>
        percentage tot mx
        = Fin (real_of_int (Math_round (real_of_int tot / real_of_int mx * 1000)) / 10))"
proof -
  have full: "question_marks [Some a, Some b, Some c] [a, b, c] = 3"
    by (simp add: question_marks_sum slot_correct_iff)
  have none: "question_marks [None, None, None] correct = 0"
    by (simp add: question_marks_sum slot_correct_iff nth_Cons')
  have swapped: "a \<noteq> b \<longrightarrow> question_marks [Some b, Some a, Some c] [a, b, c] = 1"
    by (auto simp: question_marks_sum slot_correct_iff)
  have le: "sum_list (map marks (questions (state (markAll pg))))
            \<le> 3 * int (length (questions (state pg)))"
    unfolding markAll_questions marks_after using sum_marks_le by blast
  have pct: "mx \<noteq> 0 \<longrightarrow> percentage tot mx
        = Fin (real_of_int (Math_round (real_of_int tot / real_of_int mx * 1000)) / 10)"
    by (simp add: percentage_def)
  from slot_correct_iff [of user correct i] question_marks_sum [of user correct]
    question_marks_range [of user correct] full none swapped markAll_questions [of pg]
    markAll_summary [of pg] le pct
  show ?thesis by blast
qed

theorem markAll_scoring_witness:
  "(3 :: int) \<noteq> 0
   \<and> (0 :: int) \<noteq> 4
   \<and> question_marks [Some 4, Some 0, Some 7] [0, 4, 7] = 1
   \<and> percentage 1 3 = Fin (333 / 10)
   \<and> resultsSummary (markAll
        \<lparr>state = \<lparr>started = True, submitted = False,
                   questions = [\<lparr>id_q = ''q1'', rootPc = 0, quality = ''major'',
                                 correctPcs = [0, 4, 7],
                                 userPcs = [Some 4, Some 0, Some 7], marks = 0\<rparr>],
                   questionCount = 1\<rparr>,
         selectsDisabled = False, submitBtnDisabled = False,
         downloadScorecardBtnDisabled = True, resultsPanelHidden = True,
         resultsSummary = None\<rparr>) = Some (1, 3, Fin (333 / 10))"
proof -
  let ?pg = "\<lparr>state = \<lparr>started = True, submitted = False,
                   questions = [\<lparr>id_q = ''q1'', rootPc = 0, quality = ''major'',
                                 correctPcs = [0, 4, 7],
                                 userPcs = [Some 4, Some 0, Some 7], marks = 0\<rparr>],
                   questionCount = 1\<rparr>,
         selectsDisabled = False, submitBtnDisabled = False,
         downloadScorecardBtnDisabled = True, resultsPanelHidden = True,
         resultsSummary = None\<rparr>"
  note inst = markAll_scoring [where a = 0 and b = 4 and c = 7 and pg = ?pg and mx = 3 and tot = 1]
  have ne: "(0 :: int) \<noteq> 4" "(3 :: int) \<noteq> 0" by simp_all
  from inst ne have sw: "question_marks [Some 4, Some 0, Some 7] [0, 4, 7] = 1" by blast
  from inst ne have pct: "percentage 1 3
      = Fin (real_of_int (Math_round (real_of_int 1 / real_of_int 3 * 1000)) / 10)" by blast
  have "Math_round (real_of_int 1 / real_of_int 3 * 1000) = 333" by (simp add: Math_round_def)
  with pct have pct': "percentage 1 3 = Fin (333 / 10)" by simp
  from inst have qs: "questions (state (markAll ?pg))
       = map (\<lambda>q. q\<lparr>marks := question_marks (userPcs q) (correctPcs q)\<rparr>)
           (questions (state ?pg))" by blast
  from inst have rs: "resultsSummary (markAll ?pg)
       = Some (sum_list (map marks (questions (state (markAll ?pg)))),
               3 * int (length (questions (state ?pg))),
               percentage (sum_list (map marks (questions (state (markAll ?pg)))))
                          (3 * int (length (questions (state ?pg)))))" by blast
  have "resultsSummary (markAll ?pg) = Some (1, 3, Fin (333 / 10))"
    unfolding rs qs by (simp add: sw pct')
  with ne sw pct' show ?thesis by blast
qed

text \<open>
  Claim C9.  A click on submit when the game is not started, or is already submitted,
  changes nothing on the page: \<open>markAll\<close> does not run, so no marks and no state change.
  In a started game that is not submitted the click runs \<open>markAll\<close>, which sets
  \<open>submitted\<close>; hence any number of further clicks leaves the page of the first one, and
  marking runs at most once.
\<close>

theorem submit_click_once:
  "(\<not> started (state pg) \<or> submitted (state pg) \<longrightarrow> submit_click pg = pg)
   \<and> (started (state pg) \<and> \<not> submitted (state pg) \<longrightarrow> submit_click pg = markAll pg)
   \<and> submitted (state (markAll pg))
   \<and> submit_click (submit_click pg) = submit_click pg
   \<and> (submit_click ^^ Suc n) pg = submit_click pg"
proof -
  have "started (state pg) \<and> \<not> submitted (state pg) \<longrightarrow> submit_click pg = markAll pg"
    by (simp add: submit_click_def validateBeforeSubmit_def)
  with submit_click_noop [of pg] submitted_markAll [of pg] submit_click_idem [of pg]
    submit_click_funpow [of n pg]
  show ?thesis by blast
qed

theorem submit_click_once_witness:
  "submitted (state
     \<lparr>state = \<lparr>started = True, submitted = True, questions = [], questionCount = 18\<rparr>,
      selectsDisabled = True, submitBtnDisabled = True,
      downloadScorecardBtnDisabled = False, resultsPanelHidden = False,
      resultsSummary = Some (0, 0, NaN)\<rparr>)
   \<and> submit_click
     \<lparr>state = \<lparr>started = True, submitted = True, questions = [], questionCount = 18\<rparr>,
      selectsDisabled = True, submitBtnDisabled = True,
      downloadScorecardBtnDisabled = False, resultsPanelHidden = False,
      resultsSummary = Some (0, 0, NaN)\<rparr>
     = \<lparr>state = \<lparr>started = True, submitted = True, questions = [], questionCount = 18\<rparr>,
      selectsDisabled = True, submitBtnDisabled = True,
      downloadScorecardBtnDisabled = False, resultsPanelHidden = False,
      resultsSummary = Some (0, 0, NaN)\<rparr>
   \<and> started (state
     \<lparr>state = \<lparr>started = True, submitted = False, questions = [], questionCount = 18\<rparr>,
      selectsDisabled = False, submitBtnDisabled = False,
      downloadScorecardBtnDisabled = True, resultsPanelHidden = True,
      resultsSummary = None\<rparr>)
   \<and> submit_click
     \<lparr>state = \<lparr>started = True, submitted = False, questions = [], questionCount = 18\<rparr>,
      selectsDisabled = False, submitBtnDisabled = False,
      downloadScorecardBtnDisabled = True, resultsPanelHidden = True,
      resultsSummary = None\<rparr>
     = \<lparr>state = \<lparr>started = True, submitted = True, questions = [], questionCount = 18\<rparr>,
      selectsDisabled = True, submitBtnDisabled = True,
      downloadScorecardBtnDisabled = False, resultsPanelHidden = False,
      resultsSummary = Some (0, 0, NaN)\<rparr>"
proof -
  let ?done = "\<lparr>state = \<lparr>started = True, submitted = True, questions = [], questionCount = 18\<rparr>,
      selectsDisabled = True, submitBtnDisabled = True,
      downloadScorecardBtnDisabled = False, resultsPanelHidden = False,
      resultsSummary = Some (0, 0, NaN)\<rparr>"
  let ?open = "\<lparr>state = \<lparr>started = True, submitted = False, questions = [], questionCount = 18\<rparr>,
      selectsDisabled = False, submitBtnDisabled = False,
      downloadScorecardBtnDisabled = True, resultsPanelHidden = True,
      resultsSummary = None\<rparr>"
  have d: "submitted (state ?done)" by simp
  have o: "started (state ?open) \<and> \<not> submitted (state ?open)" by simp
  from submit_click_once [of ?done 0] d have 1: "submit_click ?done = ?done" by blast
  from submit_click_once [of ?open 0] o have "submit_click ?open = markAll ?open" by blast
  moreover have "markAll ?open = ?done" by (simp add: markAll_def Let_def percentage_def)
  ultimately have 2: "submit_click ?open = ?done" by simp
  from d o 1 2 show ?thesis by blast
qed

section \<open>Question generation\<close>

lemma build_pool_full: "build_pool 0 [] = full_pool"
  by (simp add: build_pool.simps full_pool_def)

lemma full_pool_props: "length full_pool = 24" "distinct full_pool"
  by (simp_all add: full_pool_def)

lemma full_pool_set: "set full_pool = {0..11} \<times> {''major'', ''minor''}"
proof -
  have "\<And>x::int. 0 \<le> x \<and> x \<le> 11 \<longleftrightarrow> x \<in> {0,1,2,3,4,5,6,7,8,9,10,11}" by simp arith
  then have "{0..11::int} = {0,1,2,3,4,5,6,7,8,9,10,11}" by (simp add: set_eq_iff)
  then show ?thesis by (auto simp: full_pool_def)
qed

lemma ids_distinct: "distinct (map (\<lambda>i. ''q'' @ show_nat (Suc i)) [0..<30])"
  by (simp add: upt_rec show_nat.simps digit_char_def)


lemma random_index:
  assumes "0 \<le> r" "r < 1" "0 < n"
  shows "nat (Math_floor (r * real n)) < n"
proof -
  have "r * real n < real n" using assms by simp
  then have "\<lfloor>r * real n\<rfloor> < int n" by linarith
  then show ?thesis using assms(3) by (simp add: Math_floor_def)
qed

lemma swap_entries_mset:
  "i < length xs \<Longrightarrow> j < length xs \<Longrightarrow> mset (swap_entries xs i j) = mset xs"
  unfolding swap_entries_def by (rule mset_swap)

lemma swap_entries_length: "length (swap_entries xs i j) = length xs"
  by (simp add: swap_entries_def)

lemma shuffle_loop_props:
  assumes rnd: "\<forall>k. 0 \<le> rnd k \<and> rnd k < 1"
  shows "i < length pool \<Longrightarrow>
         mset (fst (shuffle_loop rnd c i pool)) = mset pool
         \<and> snd (shuffle_loop rnd c i pool) = c + i"
proof (induction i arbitrary: c pool)
  case 0
  then show ?case by simp
next
  case (Suc i)
  let ?j = "nat (Math_floor (rnd c * real (Suc i + 1)))"
  have "?j < Suc i + 1" using rnd by (intro random_index) simp_all
  with Suc.prems have j: "?j < length pool" by simp
  have m: "mset (swap_entries pool (Suc i) ?j) = mset pool"
    using Suc.prems j by (rule swap_entries_mset)
  have "i < length (swap_entries pool (Suc i) ?j)"
    using Suc.prems by (simp add: swap_entries_length)
  from Suc.IH [OF this, of "c + 1"] m show ?case by (simp add: Let_def)
qed

lemma fill_loop_props:
  "(\<forall>k. 0 \<le> rnd k \<and> rnd k < 1) \<Longrightarrow> pool \<noteq> [] \<Longrightarrow>
   \<exists>extra. fill_loop rnd c target pool picked = picked @ extra
           \<and> set extra \<subseteq> set pool
           \<and> int (length (picked @ extra)) = max target (int (length picked))"
proof (induction rnd c target pool picked rule: fill_loop.induct)
  case (1 rnd c target pool picked)
  show ?case
  proof (cases "int (length picked) < target")
    case False
    then have "fill_loop rnd c target pool picked = picked @ []"
      by (subst fill_loop.simps) simp
    moreover have "int (length (picked @ [])) = max target (int (length picked))"
      using False by simp
    ultimately show ?thesis by (metis empty_subsetI set_empty2)
  next
    case True
    let ?x = "pool ! nat (Math_floor (rnd c * real (length pool)))"
    have step: "fill_loop rnd c target pool picked
                = fill_loop rnd (c + 1) target pool (picked @ [?x])"
      using True by (subst fill_loop.simps) simp
    from "1.IH" [OF True "1.prems"] obtain extra where
      e1: "fill_loop rnd (c + 1) target pool (picked @ [?x]) = (picked @ [?x]) @ extra"
      and e2: "set extra \<subseteq> set pool"
      and e3: "int (length ((picked @ [?x]) @ extra)) = max target (int (length (picked @ [?x])))"
      by blast
    have "nat (Math_floor (rnd c * real (length pool))) < length pool"
      using "1.prems" by (intro random_index) simp_all
    then have x: "?x \<in> set pool" by (rule nth_mem)
    have "fill_loop rnd c target pool picked = picked @ (?x # extra)"
      using step e1 by simp
    moreover have "set (?x # extra) \<subseteq> set pool" using x e2 by simp
    moreover have "int (length (picked @ (?x # extra))) = max target (int (length picked))"
      using e3 True by simp
    ultimately show ?thesis by blast
  qed
qed

lemma triad_of_make_question: "triad_of (make_question q idx) = q"
  by (simp add: triad_of_def make_question_def)

lemma map_triad_of_aux:
  "map triad_of (map (\<lambda>(q, idx). make_question q idx) zs) = map fst zs"
  by (induction zs) (auto simp: triad_of_make_question)

lemma map_triad_of_questions:
  "map triad_of (map (\<lambda>(q, idx). make_question q idx) (zip picked [0..<length picked])) = picked"
proof -
  have "map fst (zip picked [0..<length picked]) = picked" by simp
  then show ?thesis unfolding map_triad_of_aux .
qed

lemma map_id_q_aux:
  "map id_q (map (\<lambda>(q, idx). make_question q idx) zs)
   = map (\<lambda>i. ''q'' @ show_nat (i + 1)) (map snd zs)"
  by (induction zs) (auto simp: make_question_def)

lemma map_id_q_questions:
  "map id_q (map (\<lambda>(q, idx). make_question q idx) (zip picked [0..<length picked]))
   = map (\<lambda>i. ''q'' @ show_nat (i + 1)) [0..<length picked]"
proof -
  have "map snd (zip picked [0..<length picked]) = [0..<length picked]" by simp
  then show ?thesis unfolding map_id_q_aux by (rule arg_cong)
qed

lemma questions_fresh:
  "q \<in> set (map (\<lambda>(q, idx). make_question q idx) (zip picked [0..<length picked]))
   \<Longrightarrow> correctPcs q = triadPcs (rootPc q) (quality q) \<and> userPcs q = [None, None, None]
       \<and> marks q = 0"
  by (auto simp: make_question_def)

lemma generateQuestions_shape:
  assumes rnd: "\<forall>k. 0 \<le> rnd k \<and> rnd k < 1"
  shows "\<exists>pool extra picked.
           mset pool = mset full_pool
           \<and> set extra \<subseteq> set full_pool
           \<and> picked = take (nat (clampQuestions n)) pool @ extra
           \<and> length picked = nat (clampQuestions n)
           \<and> generateQuestions rnd n
               = map (\<lambda>(q, idx). make_question q idx) (zip picked [0..<length picked])"
proof -
  let ?t = "clampQuestions n"
  let ?sh = "shuffle_loop rnd 0 23 full_pool"
  let ?pool = "fst ?sh"
  have t: "1 \<le> ?t" "?t \<le> 30" by (cases n; simp add: clampQuestions_def)+
  have "(23::nat) < length full_pool" by (simp add: full_pool_props)
  from shuffle_loop_props [OF rnd this, of 0]
  have m: "mset ?pool = mset full_pool" and calls: "snd ?sh = 23" by simp_all
  from m have len: "length ?pool = 24" by (metis full_pool_props(1) mset_eq_length)
  from m have sets: "set ?pool = set full_pool" by (rule mset_eq_setD)
  have ne: "?pool \<noteq> []" using len by auto
  let ?picked0 = "take (nat (min ?t (int (length ?pool)))) ?pool"
  from fill_loop_props [OF rnd ne, of 23 ?t ?picked0] obtain extra where
    f1: "fill_loop rnd 23 ?t ?pool ?picked0 = ?picked0 @ extra"
    and f2: "set extra \<subseteq> set ?pool"
    and f3: "int (length (?picked0 @ extra)) = max ?t (int (length ?picked0))"
    by blast
  have l0: "int (length ?picked0) = min ?t 24" using len t by simp
  have p0: "?picked0 = take (nat ?t) ?pool" using len by (simp add: min_def)
  have f3': "length (?picked0 @ extra) = nat ?t" using f3 l0 t by linarith
  have gen: "generateQuestions rnd n
      = map (\<lambda>(q, idx). make_question q idx)
          (zip (?picked0 @ extra) [0..<length (?picked0 @ extra)])"
    unfolding generateQuestions_def build_pool_full
    by (simp add: Let_def full_pool_props split_def calls f1 del: shuffle_loop.simps)
  show ?thesis
    using m f2 sets p0 f3' gen by (metis (no_types, lifting))
qed


lemma ids_distinct_upto:
  assumes "k \<le> 30"
  shows "distinct (map (\<lambda>i. ''q'' @ show_nat (i + 1)) [0..<k])"
proof -
  have "[0..<k] = take k [0..<30]" using assms by (simp add: take_upt)
  then have "map (\<lambda>i. ''q'' @ show_nat (i + 1)) [0..<k]
             = take k (map (\<lambda>i. ''q'' @ show_nat (Suc i)) [0..<30])"
    by (simp add: take_map)
  then show ?thesis using ids_distinct by (simp only: distinct_take)
qed

lemma generateQuestions_facts:
  assumes rnd: "\<forall>k. 0 \<le> rnd k \<and> rnd k < 1"
  shows "length (generateQuestions rnd n) = nat (clampQuestions n)"
    and "distinct (take 24 (map triad_of (generateQuestions rnd n)))"
    and "set (map triad_of (generateQuestions rnd n)) \<subseteq> set full_pool"
    and "24 \<le> clampQuestions n \<Longrightarrow>
           mset (take 24 (map triad_of (generateQuestions rnd n))) = mset full_pool"
    and "map id_q (generateQuestions rnd n)
           = map (\<lambda>i. ''q'' @ show_nat (i + 1)) [0..<length (generateQuestions rnd n)]"
    and "distinct (map id_q (generateQuestions rnd n))"
    and "\<forall>q \<in> set (generateQuestions rnd n).
           correctPcs q = triadPcs (rootPc q) (quality q) \<and> userPcs q = [None, None, None]
           \<and> marks q = 0"
proof -
  let ?t = "clampQuestions n"
  have t: "1 \<le> ?t" "?t \<le> 30" by (cases n; simp add: clampQuestions_def)+
  from generateQuestions_shape [OF rnd, of n] obtain pool extra picked where
    m: "mset pool = mset full_pool"
    and ex: "set extra \<subseteq> set full_pool"
    and pk: "picked = take (nat ?t) pool @ extra"
    and len: "length picked = nat ?t"
    and gen: "generateQuestions rnd n
               = map (\<lambda>(q, idx). make_question q idx) (zip picked [0..<length picked])"
    by blast
  have tri: "map triad_of (generateQuestions rnd n) = picked"
    unfolding gen by (rule map_triad_of_questions)
  show L: "length (generateQuestions rnd n) = nat ?t"
    unfolding gen using len by simp
  have lp: "length pool = 24" using m by (metis full_pool_props(1) mset_eq_length)
  have dp: "distinct pool" using m full_pool_props(2) by (metis mset_eq_imp_distinct_iff)
  have sp: "set pool = set full_pool" using m by (rule mset_eq_setD)
  have pre: "take 24 picked = take (nat ?t) pool"
  proof (cases "nat ?t \<le> 24")
    case True
    then have "length (take (nat ?t) pool) = nat ?t" using lp by simp
    with len pk have "extra = []" by (metis append_eq_conv_conj append_self_conv length_append add_cancel_left_right length_0_conv)
    with pk True len show ?thesis by simp
  next
    case False
    then have "take (nat ?t) pool = pool" using lp by simp
    with pk lp show ?thesis by simp
  qed
  show "distinct (take 24 (map triad_of (generateQuestions rnd n)))"
    unfolding tri pre using dp by (rule distinct_take)
  have "set (take (nat ?t) pool) \<subseteq> set pool" by (rule set_take_subset)
  then show "set (map triad_of (generateQuestions rnd n)) \<subseteq> set full_pool"
    unfolding tri pk using ex sp by auto
  show "mset (take 24 (map triad_of (generateQuestions rnd n))) = mset full_pool"
    if "24 \<le> ?t"
  proof -
    from that lp have "take (nat ?t) pool = pool" by simp
    then show ?thesis unfolding tri pre using m by simp
  qed
  show "map id_q (generateQuestions rnd n)
           = map (\<lambda>i. ''q'' @ show_nat (i + 1)) [0..<length (generateQuestions rnd n)]"
    unfolding L unfolding gen len [symmetric] by (rule map_id_q_questions)
  then show "distinct (map id_q (generateQuestions rnd n))"
    using ids_distinct_upto [of "length (generateQuestions rnd n)"] L t by simp
  show "\<forall>q \<in> set (generateQuestions rnd n).
           correctPcs q = triadPcs (rootPc q) (quality q) \<and> userPcs q = [None, None, None]
           \<and> marks q = 0"
    unfolding gen using questions_fresh by blast
qed


text \<open>
  Claim C3.  Whatever numbers from 0 (included) to 1 (excluded) \<open>Math.random\<close> returns,
  \<open>generateQuestions\<close> with clamped count N makes exactly N questions, and the first
  min(N, 24) of them have pairwise distinct (rootPc, quality) pairs, all taken from the
  pool of the 24 distinct pairs.  With count 24 the pairs are a permutation of the pool;
  with count 30 there are 30 questions, the first 24 a permutation of the pool and the six
  others drawn from it.  The ids are \<open>q1\<close>, \<open>q2\<close>, ... in order and distinct, and every
  question has \<open>correctPcs\<close> from \<open>triadPcs\<close>, three absent answers and 0 marks.
\<close>

theorem generateQuestions_distinct_pairs:
  assumes "\<forall>k. 0 \<le> rnd k \<and> rnd k < 1"
  shows "length (generateQuestions rnd n) = nat (clampQuestions n)
   \<and> distinct (take (min (nat (clampQuestions n)) 24) (map triad_of (generateQuestions rnd n)))
   \<and> set (map triad_of (generateQuestions rnd n)) \<subseteq> set (build_pool 0 [])
   \<and> length (build_pool 0 []) = 24
   \<and> distinct (build_pool 0 [])
   \<and> set (build_pool 0 []) = {0..11} \<times> {''major'', ''minor''}
   \<and> length (generateQuestions rnd (Fin 24)) = 24
   \<and> mset (map triad_of (generateQuestions rnd (Fin 24))) = mset (build_pool 0 [])
   \<and> length (generateQuestions rnd (Fin 30)) = 30
   \<and> mset (take 24 (map triad_of (generateQuestions rnd (Fin 30)))) = mset (build_pool 0 [])
   \<and> set (drop 24 (map triad_of (generateQuestions rnd (Fin 30)))) \<subseteq> set (build_pool 0 [])
   \<and> map id_q (generateQuestions rnd n)
       = map (\<lambda>i. ''q'' @ show_nat (i + 1)) [0..<nat (clampQuestions n)]
   \<and> distinct (map id_q (generateQuestions rnd n))
   \<and> (\<forall>q \<in> set (generateQuestions rnd n).
         correctPcs q = triadPcs (rootPc q) (quality q) \<and> userPcs q = [None, None, None]
         \<and> marks q = 0)"
proof -
  note f = generateQuestions_facts [OF assms]
  have c24: "clampQuestions (Fin 24) = 24" and c30: "clampQuestions (Fin 30) = 30"
    by (simp_all add: clampQuestions_def Math_round_def)
  have l24: "length (generateQuestions rnd (Fin 24)) = 24" using f(1) [of "Fin 24"] c24 by simp
  have l30: "length (generateQuestions rnd (Fin 30)) = 30" using f(1) [of "Fin 30"] c30 by simp
  have "take (min (nat (clampQuestions n)) 24) (map triad_of (generateQuestions rnd n))
        = take 24 (map triad_of (generateQuestions rnd n))"
    using f(1) [of n] by (simp add: min_def)
  then have d: "distinct (take (min (nat (clampQuestions n)) 24)
                  (map triad_of (generateQuestions rnd n)))"
    using f(2) [of n] by simp
  have "take 24 (map triad_of (generateQuestions rnd (Fin 24)))
        = map triad_of (generateQuestions rnd (Fin 24))"
    using l24 by simp
  then have m24: "mset (map triad_of (generateQuestions rnd (Fin 24))) = mset (build_pool 0 [])"
    using f(4) [of "Fin 24"] c24 by (simp add: build_pool_full)
  have m30: "mset (take 24 (map triad_of (generateQuestions rnd (Fin 30)))) = mset (build_pool 0 [])"
    using f(4) [of "Fin 30"] c30 by (simp add: build_pool_full)
  have "set (drop 24 (map triad_of (generateQuestions rnd (Fin 30))))
        \<subseteq> set (map triad_of (generateQuestions rnd (Fin 30)))"
    by (rule set_drop_subset)
  then have d30: "set (drop 24 (map triad_of (generateQuestions rnd (Fin 30))))
        \<subseteq> set (build_pool 0 [])"
    using f(3) [of "Fin 30"] unfolding build_pool_full by (rule subset_trans)
  have ids: "map id_q (generateQuestions rnd n)
       = map (\<lambda>i. ''q'' @ show_nat (i + 1)) [0..<nat (clampQuestions n)]"
    using f(5) [of n] unfolding f(1) .
  have pool: "length (build_pool 0 []) = 24" "distinct (build_pool 0 [])"
    "set (build_pool 0 []) = {0..11} \<times> {''major'', ''minor''}"
    unfolding build_pool_full by (simp_all add: full_pool_props full_pool_set)
  have sub: "set (map triad_of (generateQuestions rnd n)) \<subseteq> set (build_pool 0 [])"
    unfolding build_pool_full by (rule f(3))
  from f(1) [of n] d sub pool l24 m24 l30 m30 d30 ids f(6) [of n] f(7) [of n]
  show ?thesis by blast
qed

theorem generateQuestions_distinct_pairs_witness:
  "(\<forall>k::nat. 0 \<le> (1 / 2 :: real) \<and> (1 / 2 :: real) < 1)
   \<and> length (generateQuestions (\<lambda>k. 1 / 2) (Fin 30)) = 30
   \<and> generateQuestions (\<lambda>k. 1 / 2) (Fin 30) ! 0 \<in> set (generateQuestions (\<lambda>k. 1 / 2) (Fin 30))
   \<and> marks (generateQuestions (\<lambda>k. 1 / 2) (Fin 30) ! 0) = 0
   \<and> userPcs (generateQuestions (\<lambda>k. 1 / 2) (Fin 30) ! 0) = [None, None, None]
   \<and> map triad_of (generateQuestions (\<lambda>k. 1 / 2) (Fin 3))
       = [(0, ''major''), (8, ''minor''), (0, ''minor'')]"
proof -
  have run: "map triad_of (generateQuestions (\<lambda>k. 1 / 2) (Fin 3))
       = [(0, ''major''), (8, ''minor''), (0, ''minor'')]"
    by code_simp
  have h: "\<forall>k::nat. 0 \<le> (\<lambda>k. 1 / 2 :: real) k \<and> (\<lambda>k. 1 / 2 :: real) k < 1" by simp
  note inst = generateQuestions_distinct_pairs [OF h, of "Fin 30"]
  from inst have len: "length (generateQuestions (\<lambda>k. 1 / 2) (Fin 30)) = 30" by blast
  then have mem: "generateQuestions (\<lambda>k. 1 / 2) (Fin 30) ! 0
                  \<in> set (generateQuestions (\<lambda>k. 1 / 2) (Fin 30))"
    by (intro nth_mem) simp
  from inst have "\<forall>q \<in> set (generateQuestions (\<lambda>k. 1 / 2) (Fin 30)).
         correctPcs q = triadPcs (rootPc q) (quality q) \<and> userPcs q = [None, None, None]
         \<and> marks q = 0" by blast
  with mem have "marks (generateQuestions (\<lambda>k. 1 / 2) (Fin 30) ! 0) = 0
     \<and> userPcs (generateQuestions (\<lambda>k. 1 / 2) (Fin 30) ! 0) = [None, None, None]" by blast
  with len mem run show ?thesis by simp
qed

section \<open>Chord playback\<close>

lemma stem_exists: "\<exists>stem. getStemForPc (pcFromPitch p) = Some stem \<and> stem \<noteq> []"
proof -
  let ?pc = "p mod 12"
  have r: "0 \<le> ?pc \<and> ?pc \<le> 11" by simp
  then have "js_rem (?pc + 12) 12 = ?pc" by (simp add: js_rem_nonneg)
  moreover from r have "?pc \<in> {0, 1, 2, 3, 4, 5, 6, 7, 8, 9, 10, 11}" by simp arith
  ultimately show ?thesis
    unfolding pcFromPitch_mod getStemForPc_def
    by (auto simp: PC_TO_STEM_def truthy_str_def)
qed

lemma sample_url_noteUrl:
  "\<exists>stem. getStemForPc (pcFromPitch p) = Some stem \<and> sample_url p = noteUrl stem (octFromPitch p)"
  using stem_exists [of p] by (auto simp: sample_url_def)

lemma sample_url_truthy: "truthy_str (Some (sample_url p))"
  using sample_url_noteUrl [of p] by (auto simp: truthy_str_def noteUrl_def AUDIO_DIR_def)

lemma ensureAudioGraph_ctx: "audioCtx a \<Longrightarrow> ensureAudioGraph a = (True, a)"
  by (simp add: ensureAudioGraph_def)

lemma loadBuffer_ctx:
  assumes "audioCtx a"
  shows "fst (loadBuffer f url a) = resolved f a url"
    and "audioCtx (snd (loadBuffer f url a))"
    and "resolved f (snd (loadBuffer f url a)) u = resolved f a u"
    and "activeVoices (snd (loadBuffer f url a)) = activeVoices a"
    and "alerts (snd (loadBuffer f url a)) = alerts a"
    and "currentTime (snd (loadBuffer f url a)) = currentTime a"
  using assms
  by (auto simp: loadBuffer_def resolved_def ensureAudioGraph_ctx Let_def
      split: option.splits if_splits)

lemma loadPitchBuffer_ctx:
  assumes "audioCtx a"
  shows "fst (loadPitchBuffer f p a) = result_for (resolved f a (sample_url p)) (sample_url p)"
    and "audioCtx (snd (loadPitchBuffer f p a))"
    and "resolved f (snd (loadPitchBuffer f p a)) u = resolved f a u"
    and "activeVoices (snd (loadPitchBuffer f p a)) = activeVoices a"
    and "alerts (snd (loadPitchBuffer f p a)) = alerts a"
    and "currentTime (snd (loadPitchBuffer f p a)) = currentTime a"
proof -
  from sample_url_noteUrl [of p] obtain stem where
    st: "getStemForPc (pcFromPitch p) = Some stem"
    and u: "sample_url p = noteUrl stem (octFromPitch p)" by blast
  have eq: "loadPitchBuffer f p a =
        (result_for (fst (loadBuffer f (sample_url p) a)) (sample_url p),
         snd (loadBuffer f (sample_url p) a))"
    by (simp add: loadPitchBuffer_def Let_def st u result_for_def split: prod.splits option.splits)
  note lb = loadBuffer_ctx [OF assms, of f "sample_url p"]
  show "fst (loadPitchBuffer f p a) = result_for (resolved f a (sample_url p)) (sample_url p)"
    unfolding eq using lb(1) by simp
  show "audioCtx (snd (loadPitchBuffer f p a))" unfolding eq using lb(2) by simp
  show "resolved f (snd (loadPitchBuffer f p a)) u = resolved f a u" for u
    unfolding eq using lb(3) by simp
  show "activeVoices (snd (loadPitchBuffer f p a)) = activeVoices a" unfolding eq using lb(4) by simp
  show "alerts (snd (loadPitchBuffer f p a)) = alerts a" unfolding eq using lb(5) by simp
  show "currentTime (snd (loadPitchBuffer f p a)) = currentTime a" unfolding eq using lb(6) by simp
qed

lemma load_all_ctx:
  "audioCtx a \<Longrightarrow>
     fst (load_all f ps a) = map (\<lambda>p. result_for (resolved f a (sample_url p)) (sample_url p)) ps
     \<and> audioCtx (snd (load_all f ps a))
     \<and> activeVoices (snd (load_all f ps a)) = activeVoices a
     \<and> alerts (snd (load_all f ps a)) = alerts a
     \<and> currentTime (snd (load_all f ps a)) = currentTime a"
proof (induction ps arbitrary: a)
  case Nil
  then show ?case by simp
next
  case (Cons p ps)
  note lp = loadPitchBuffer_ctx [OF Cons.prems, of f p]
  let ?a1 = "snd (loadPitchBuffer f p a)"
  have res: "(\<lambda>q. result_for (resolved f ?a1 (sample_url q)) (sample_url q))
             = (\<lambda>q. result_for (resolved f a (sample_url q)) (sample_url q))"
    using lp(3) by simp
  from Cons.IH [OF lp(2)] lp(1,4,5,6) show ?case
    by (simp add: split_def Let_def res)
qed


lemma result_for_fields:
  "truthy_str (missingUrl (result_for r (sample_url p))) \<longleftrightarrow> r = None"
  "missingUrl (result_for None u) = Some u"
  "buffer (result_for r u) = r"
  using sample_url_truthy [of p] by (cases r; simp add: result_for_def truthy_str_def)+

lemma find_missing:
  "find (\<lambda>r. truthy_str (missingUrl r)) (map (\<lambda>p. result_for (g p) (sample_url p)) ps)
   = map_option (\<lambda>p. result_for None (sample_url p)) (find (\<lambda>p. g p = None) ps)"
  by (induction ps) (auto simp: result_for_fields)

lemma map_filter_buffers:
  "\<forall>p \<in> set ps. g p \<noteq> None \<Longrightarrow>
   List.map_filter buffer (map (\<lambda>p. result_for (g p) (sample_url p)) ps)
   = map (\<lambda>p. the (g p)) ps"
  by (induction ps) (auto simp: List.map_filter_simps result_for_fields)

lemma playBufferWindowed_ctx:
  "audioCtx a \<Longrightarrow>
   playBufferWindowed b w d fo gn a
   = a\<lparr>activeVoices := activeVoices a @ [make_voice w d fo gn b]\<rparr>"
  by (simp add: playBufferWindowed_def ensureAudioGraph_ctx Let_def make_voice_def)

lemma play_all_ctx:
  "audioCtx a \<Longrightarrow>
   foldl (\<lambda>a b. playBufferWindowed b w d fo gn a) a bufs
   = a\<lparr>activeVoices := activeVoices a @ map (make_voice w d fo gn) bufs\<rparr>"
proof (induction bufs arbitrary: a)
  case Nil
  then show ?case by simp
next
  case (Cons b bufs)
  let ?a1 = "a\<lparr>activeVoices := activeVoices a @ [make_voice w d fo gn b]\<rparr>"
  have "audioCtx ?a1" using Cons.prems by simp
  from Cons.IH [OF this] Cons.prems show ?case
    by (simp add: playBufferWindowed_ctx)
qed

lemma ensure_available:
  assumes "audioCtx a \<or> hasAudioContext a"
  shows "ensureAudioGraph (resumeAudioIfNeeded a) = (True, a\<lparr>audioCtx := True\<rparr>)"
  using assms by (cases "audioCtx a") (simp_all add: ensureAudioGraph_def resumeAudioIfNeeded_def)

lemma ensure_unavailable:
  assumes "\<not> (audioCtx a \<or> hasAudioContext a)"
  shows "ensureAudioGraph (resumeAudioIfNeeded a)
         = (False, a\<lparr>alerts := alerts a @ [web_audio_unsupported, web_audio_unsupported]\<rparr>)"
  using assms by (simp add: ensureAudioGraph_def resumeAudioIfNeeded_def)

lemma play_unavailable:
  assumes "\<not> (audioCtx (sound ap) \<or> hasAudioContext (sound ap))"
  shows "playPitchesWindowed f ps d ap
         = (False, ap\<lparr>sound := (sound ap)\<lparr>alerts := alerts (sound ap)
                        @ [web_audio_unsupported, web_audio_unsupported]\<rparr>\<rparr>)"
  by (simp add: playPitchesWindowed_def Let_def ensure_unavailable [OF assms])

lemma play_available:
  fixes f :: "string \<Rightarrow> audio_buffer option" and ps :: "int list" and ap :: app
  assumes av: "audioCtx (sound ap) \<or> hasAudioContext (sound ap)"
  defines "a2 \<equiv> (sound ap)\<lparr>audioCtx := True\<rparr>"
  defines "a3 \<equiv> snd (load_all f ps a2)"
  defines "g \<equiv> \<lambda>p. resolved f (sound ap) (sample_url p)"
  shows "playPitchesWindowed f ps d ap =
     (case find (\<lambda>p. g p = None) ps of
        Some p \<Rightarrow> (False, ap\<lparr>sound := a3\<lparr>alerts := alerts (sound ap)
                                      @ [missing_audio_sample (sample_url p)]\<rparr>\<rparr>)
      | None \<Rightarrow>
          if ps = [] then (False, ap\<lparr>sound := a3\<rparr>)
          else (True, ap\<lparr>sound := a3\<lparr>activeVoices := activeVoices (sound ap) @
                  map (\<lambda>p. make_voice (currentTime (sound ap) + 3 / 100) d FADE_OUT_SEC
                              ((8 / 10) / real (length ps)) (the (g p))) ps\<rparr>\<rparr>))"
    and "activeVoices a3 = activeVoices (sound ap)"
    and "alerts a3 = alerts (sound ap)"
proof -
  have ctx: "audioCtx a2" by (simp add: a2_def)
  have g: "\<And>u. resolved f a2 u = resolved f (sound ap) u" by (simp add: a2_def resolved_def)
  from load_all_ctx [OF ctx, of f ps]
  have res: "fst (load_all f ps a2) = map (\<lambda>p. result_for (g p) (sample_url p)) ps"
    and c3: "audioCtx a3"
    and v3: "activeVoices a3 = activeVoices (sound ap)"
    and al3: "alerts a3 = alerts (sound ap)"
    and t3: "currentTime a3 = currentTime (sound ap)"
    by (simp_all add: a3_def g_def a2_def resolved_def)
  show "activeVoices a3 = activeVoices (sound ap)" by (rule v3)
  show "alerts a3 = alerts (sound ap)" by (rule al3)
  have ea: "ensureAudioGraph (resumeAudioIfNeeded (sound ap)) = (True, a2)"
    unfolding a2_def using av by (rule ensure_available)
  have t2: "currentTime a2 = currentTime (sound ap)" by (simp add: a2_def)
  have la: "load_all f ps a2 = (map (\<lambda>p. result_for (g p) (sample_url p)) ps, a3)"
    using res by (simp add: a3_def prod_eq_iff)
  show "playPitchesWindowed f ps d ap =
     (case find (\<lambda>p. g p = None) ps of
        Some p \<Rightarrow> (False, ap\<lparr>sound := a3\<lparr>alerts := alerts (sound ap)
                                      @ [missing_audio_sample (sample_url p)]\<rparr>\<rparr>)
      | None \<Rightarrow>
          if ps = [] then (False, ap\<lparr>sound := a3\<rparr>)
          else (True, ap\<lparr>sound := a3\<lparr>activeVoices := activeVoices (sound ap) @
                  map (\<lambda>p. make_voice (currentTime (sound ap) + 3 / 100) d FADE_OUT_SEC
                              ((8 / 10) / real (length ps)) (the (g p))) ps\<rparr>\<rparr>))"
  proof (cases "find (\<lambda>p. g p = None) ps")
    case (Some p)
    then show ?thesis
      by (simp add: playPitchesWindowed_def Let_def ea la find_missing result_for_fields al3
          sample_url_truthy)
  next
    case None
    then have all: "\<forall>p \<in> set ps. g p \<noteq> None" by (simp add: find_None_iff)
    have bufs: "List.map_filter buffer (map (\<lambda>p. result_for (g p) (sample_url p)) ps)
                = map (\<lambda>p. the (g p)) ps"
      using all by (rule map_filter_buffers)
    have mx: "ps \<noteq> [] \<Longrightarrow> max (Suc 0) (length ps) = length ps"
      by (cases ps) simp_all
    show ?thesis
      using None mx
      by (simp add: playPitchesWindowed_def Let_def ea la find_missing bufs
          play_all_ctx [OF c3] v3 t2 comp_def)
  qed
qed


text \<open>
  Claim C8.  Chord playback is all or nothing.  With Web Audio available, if the sample
  of any requested pitch is missing (its load gives \<open>null\<close>), \<open>playPitchesWindowed\<close>
  returns false, raises one alert naming the URL of a missing sample and schedules no
  voice; if the samples of all pitches resolve (and there is a pitch), it returns true,
  raises no alert and schedules one voice for each pitch, in order.  It returns true in
  no other case, schedules nothing when it returns false, and never changes the page
  with the game state.
\<close>

theorem playPitchesWindowed_all_or_nothing:
  "doc (snd (playPitchesWindowed f ps d ap)) = doc ap
   \<and> ((audioCtx (sound ap) \<or> hasAudioContext (sound ap))
        \<and> (\<exists>p \<in> set ps. resolved f (sound ap) (sample_url p) = None)
      \<longrightarrow> \<not> fst (playPitchesWindowed f ps d ap)
          \<and> activeVoices (sound (snd (playPitchesWindowed f ps d ap))) = activeVoices (sound ap)
          \<and> (\<exists>p \<in> set ps. resolved f (sound ap) (sample_url p) = None
                \<and> alerts (sound (snd (playPitchesWindowed f ps d ap)))
                    = alerts (sound ap) @ [missing_audio_sample (sample_url p)]))
   \<and> ((audioCtx (sound ap) \<or> hasAudioContext (sound ap)) \<and> ps \<noteq> []
        \<and> (\<forall>p \<in> set ps. resolved f (sound ap) (sample_url p) \<noteq> None)
      \<longrightarrow> fst (playPitchesWindowed f ps d ap)
          \<and> alerts (sound (snd (playPitchesWindowed f ps d ap))) = alerts (sound ap)
          \<and> activeVoices (sound (snd (playPitchesWindowed f ps d ap)))
              = activeVoices (sound ap) @
                map (\<lambda>p. make_voice (currentTime (sound ap) + 3 / 100) d FADE_OUT_SEC
                            ((8 / 10) / real (length ps))
                            (the (resolved f (sound ap) (sample_url p)))) ps)
   \<and> (fst (playPitchesWindowed f ps d ap)
      \<longrightarrow> (audioCtx (sound ap) \<or> hasAudioContext (sound ap)) \<and> ps \<noteq> []
          \<and> (\<forall>p \<in> set ps. resolved f (sound ap) (sample_url p) \<noteq> None))
   \<and> (\<not> fst (playPitchesWindowed f ps d ap)
      \<longrightarrow> activeVoices (sound (snd (playPitchesWindowed f ps d ap))) = activeVoices (sound ap))"
proof (cases "audioCtx (sound ap) \<or> hasAudioContext (sound ap)")
  case False
  then show ?thesis by (simp add: play_unavailable)
next
  case True
  note pa = play_available(1) [OF True, of f ps d] play_available(2) [OF True, of f ps]
    play_available(3) [OF True, of f ps]
  let ?g = "\<lambda>p. resolved f (sound ap) (sample_url p)"
  show ?thesis
  proof (cases "find (\<lambda>p. ?g p = None) ps")
    case None
    then have all: "\<forall>p \<in> set ps. ?g p \<noteq> None" by (simp add: find_None_iff)
    then have no: "\<not> (\<exists>p \<in> set ps. ?g p = None)" by blast
    show ?thesis
    proof (cases "ps = []")
      case True
      with pa None all show ?thesis by simp
    next
      case False
      with pa None all no \<open>audioCtx (sound ap) \<or> hasAudioContext (sound ap)\<close>
      show ?thesis by simp
    qed
  next
    case (Some p)
    then have p: "p \<in> set ps" "?g p = None"
      by (auto simp: find_Some_iff in_set_conv_nth)
    then have ex: "\<exists>p \<in> set ps. ?g p = None" by blast
    then have nall: "\<not> (\<forall>p \<in> set ps. ?g p \<noteq> None)" by blast
    have R: "playPitchesWindowed f ps d ap
        = (False, ap\<lparr>sound := (snd (load_all f ps ((sound ap)\<lparr>audioCtx := True\<rparr>)))
              \<lparr>alerts := alerts (sound ap) @ [missing_audio_sample (sample_url p)]\<rparr>\<rparr>)"
      using pa(1) Some by simp
    have "\<exists>q \<in> set ps. ?g q = None
            \<and> alerts (sound (snd (playPitchesWindowed f ps d ap)))
                = alerts (sound ap) @ [missing_audio_sample (sample_url q)]"
      unfolding R using p by (intro bexI [of _ p]) simp_all
    moreover have "\<not> fst (playPitchesWindowed f ps d ap)" unfolding R by simp
    moreover have "activeVoices (sound (snd (playPitchesWindowed f ps d ap)))
                   = activeVoices (sound ap)"
      unfolding R using pa(2) by simp
    moreover have "doc (snd (playPitchesWindowed f ps d ap)) = doc ap" unfolding R by simp
    ultimately show ?thesis using nall by blast
  qed
qed

lemma sample_url_c4_e4: "sample_url 48 = ''audio/c4.mp3''" "sample_url 52 = ''audio/e4.mp3''"
  by (simp_all add: sample_url_def getStemForPc_def PC_TO_STEM_def pcFromPitch_def js_rem_def
      octFromPitch_div noteUrl_def AUDIO_DIR_def show_int_def show_nat.simps
      digit_char_def truthy_str_def)

theorem playPitchesWindowed_all_or_nothing_witness:
  "hasAudioContext (sound \<lparr>doc = \<lparr>state = initial_state, selectsDisabled = False, submitBtnDisabled = True,
                 downloadScorecardBtnDisabled = True, resultsPanelHidden = True,
                 resultsSummary = None\<rparr>,
          sound = \<lparr>hasAudioContext = True, audioCtx = False, currentTime = 0,
                   bufferPromiseCache = Map.empty, activeVoices = [], alerts = []\<rparr>\<rparr>)
   \<and> resolved (\<lambda>u. if u = ''audio/c4.mp3'' then Some 7 else None) (sound \<lparr>doc = \<lparr>state = initial_state, selectsDisabled = False, submitBtnDisabled = True,
                 downloadScorecardBtnDisabled = True, resultsPanelHidden = True,
                 resultsSummary = None\<rparr>,
          sound = \<lparr>hasAudioContext = True, audioCtx = False, currentTime = 0,
                   bufferPromiseCache = Map.empty, activeVoices = [], alerts = []\<rparr>\<rparr>) (sample_url 52) = None
   \<and> resolved (\<lambda>u. if u = ''audio/c4.mp3'' then Some 7 else None) (sound \<lparr>doc = \<lparr>state = initial_state, selectsDisabled = False, submitBtnDisabled = True,
                 downloadScorecardBtnDisabled = True, resultsPanelHidden = True,
                 resultsSummary = None\<rparr>,
          sound = \<lparr>hasAudioContext = True, audioCtx = False, currentTime = 0,
                   bufferPromiseCache = Map.empty, activeVoices = [], alerts = []\<rparr>\<rparr>) (sample_url 48) = Some 7
   \<and> \<not> fst (playPitchesWindowed (\<lambda>u. if u = ''audio/c4.mp3'' then Some 7 else None) [48, 52] (16 / 10) \<lparr>doc = \<lparr>state = initial_state, selectsDisabled = False, submitBtnDisabled = True,
                 downloadScorecardBtnDisabled = True, resultsPanelHidden = True,
                 resultsSummary = None\<rparr>,
          sound = \<lparr>hasAudioContext = True, audioCtx = False, currentTime = 0,
                   bufferPromiseCache = Map.empty, activeVoices = [], alerts = []\<rparr>\<rparr>)
   \<and> activeVoices (sound (snd (playPitchesWindowed (\<lambda>u. if u = ''audio/c4.mp3'' then Some 7 else None) [48, 52] (16 / 10) \<lparr>doc = \<lparr>state = initial_state, selectsDisabled = False, submitBtnDisabled = True,
                 downloadScorecardBtnDisabled = True, resultsPanelHidden = True,
                 resultsSummary = None\<rparr>,
          sound = \<lparr>hasAudioContext = True, audioCtx = False, currentTime = 0,
                   bufferPromiseCache = Map.empty, activeVoices = [], alerts = []\<rparr>\<rparr>))) = []
   \<and> alerts (sound (snd (playPitchesWindowed (\<lambda>u. if u = ''audio/c4.mp3'' then Some 7 else None) [48, 52] (16 / 10) \<lparr>doc = \<lparr>state = initial_state, selectsDisabled = False, submitBtnDisabled = True,
                 downloadScorecardBtnDisabled = True, resultsPanelHidden = True,
                 resultsSummary = None\<rparr>,
          sound = \<lparr>hasAudioContext = True, audioCtx = False, currentTime = 0,
                   bufferPromiseCache = Map.empty, activeVoices = [], alerts = []\<rparr>\<rparr>)))
       = [missing_audio_sample ''audio/e4.mp3'']
   \<and> fst (playPitchesWindowed (\<lambda>u. if u = ''audio/c4.mp3'' then Some 7 else None) [48] (16 / 10) \<lparr>doc = \<lparr>state = initial_state, selectsDisabled = False, submitBtnDisabled = True,
                 downloadScorecardBtnDisabled = True, resultsPanelHidden = True,
                 resultsSummary = None\<rparr>,
          sound = \<lparr>hasAudioContext = True, audioCtx = False, currentTime = 0,
                   bufferPromiseCache = Map.empty, activeVoices = [], alerts = []\<rparr>\<rparr>)
   \<and> map src_buffer (activeVoices (sound (snd (playPitchesWindowed (\<lambda>u. if u = ''audio/c4.mp3'' then Some 7 else None) [48] (16 / 10) \<lparr>doc = \<lparr>state = initial_state, selectsDisabled = False, submitBtnDisabled = True,
                 downloadScorecardBtnDisabled = True, resultsPanelHidden = True,
                 resultsSummary = None\<rparr>,
          sound = \<lparr>hasAudioContext = True, audioCtx = False, currentTime = 0,
                   bufferPromiseCache = Map.empty, activeVoices = [], alerts = []\<rparr>\<rparr>)))) = [7]"
proof -
  let ?ap = "\<lparr>doc = \<lparr>state = initial_state, selectsDisabled = False, submitBtnDisabled = True,
                 downloadScorecardBtnDisabled = True, resultsPanelHidden = True,
                 resultsSummary = None\<rparr>,
          sound = \<lparr>hasAudioContext = True, audioCtx = False, currentTime = 0,
                   bufferPromiseCache = Map.empty, activeVoices = [], alerts = []\<rparr>\<rparr>"
  let ?f = "(\<lambda>u. if u = ''audio/c4.mp3'' then Some 7 else None)"
  have av: "audioCtx (sound ?ap) \<or> hasAudioContext (sound ?ap)" by simp
  have r52: "resolved ?f (sound ?ap) (sample_url 52) = None"
    and r48: "resolved ?f (sound ?ap) (sample_url 48) = Some 7"
    by (simp_all add: resolved_def sample_url_c4_e4)
  have ex: "\<exists>p \<in> set [48, 52]. resolved ?f (sound ?ap) (sample_url p) = None"
    using r52 by simp
  from playPitchesWindowed_all_or_nothing [of ?f "[48, 52]" "16 / 10" ?ap] av ex
  have no: "\<not> fst (playPitchesWindowed ?f [48, 52] (16 / 10) ?ap)"
    and vs: "activeVoices (sound (snd (playPitchesWindowed ?f [48, 52] (16 / 10) ?ap)))
             = activeVoices (sound ?ap)"
    and al: "\<exists>p \<in> set [48, 52]. resolved ?f (sound ?ap) (sample_url p) = None
               \<and> alerts (sound (snd (playPitchesWindowed ?f [48, 52] (16 / 10) ?ap)))
                   = alerts (sound ?ap) @ [missing_audio_sample (sample_url p)]"
    by blast+
  from al r48 have al': "alerts (sound (snd (playPitchesWindowed ?f [48, 52] (16 / 10) ?ap)))
                   = [missing_audio_sample ''audio/e4.mp3'']"
    by (auto simp: sample_url_c4_e4)
  have all: "\<forall>p \<in> set [48]. resolved ?f (sound ?ap) (sample_url p) \<noteq> None"
    using r48 by simp
  have ne: "[48 :: int] \<noteq> []" by simp
  from playPitchesWindowed_all_or_nothing [of ?f "[48]" "16 / 10" ?ap] av all ne
  have yes: "fst (playPitchesWindowed ?f [48] (16 / 10) ?ap)"
    and vs1: "activeVoices (sound (snd (playPitchesWindowed ?f [48] (16 / 10) ?ap)))
              = activeVoices (sound ?ap) @
                map (\<lambda>p. make_voice (currentTime (sound ?ap) + 3 / 100) (16 / 10) FADE_OUT_SEC
                            ((8 / 10) / real (length [48 :: int]))
                            (the (resolved ?f (sound ?ap) (sample_url p)))) [48]"
    by blast+
  have "map src_buffer (activeVoices (sound (snd (playPitchesWindowed ?f [48] (16 / 10) ?ap))))
        = [7]"
    unfolding vs1 using r48 by (simp add: make_voice_def)
  with r52 r48 no vs al' yes show ?thesis by simp
qed

end
